theory Spec2Isabelle
  imports Main "HOL-Library.Word" "HOL-Library.List_Lexorder"
begin

unbundle bit_operations_syntax

section \<open>Bytes and slices\<close>

text \<open>
  A Go \<^verbatim>\<open>[]byte\<close> is a list of 8-bit words. Where the code tells a nil slice from
  an empty one (\<^verbatim>\<open>start == nil\<close>, a nil result of \<^verbatim>\<open>Above\<close>), the slice is a
  \<open>bytes option\<close> and \<open>None\<close> is nil. The order \<open><\<close> on \<open>bytes\<close> is the
  lexicographic order of the unsigned byte values, the order of \<^verbatim>\<open>bytes.Compare\<close>
  and of the keys of the physical backend.
\<close>

type_synonym byte = "8 word"
type_synonym bytes = "byte list"

definition slice_bytes :: "bytes option \<Rightarrow> bytes" where
  "slice_bytes s = (case s of None \<Rightarrow> [] | Some b \<Rightarrow> b)"

text \<open>\<^verbatim>\<open>len(s) == 0\<close>: true of nil and of the empty slice.\<close>

definition len_zero :: "bytes option \<Rightarrow> bool" where
  "len_zero s = (slice_bytes s = [])"

text \<open>\<^verbatim>\<open>bytes.Equal(a, b)\<close>: a nil argument is equal to an empty slice.\<close>

definition bytes_Equal :: "bytes \<Rightarrow> bytes option \<Rightarrow> bool" where
  "bytes_Equal a b = (a = slice_bytes b)"

text \<open>\<^verbatim>\<open>bytes.HasPrefix(s, prefix)\<close>:
  \<^verbatim>\<open>len(s) >= len(prefix) && bytes.Equal(s[0:len(prefix)], prefix)\<close>.\<close>

definition HasPrefix :: "bytes \<Rightarrow> bytes \<Rightarrow> bool" where
  "HasPrefix s p = (length p \<le> length s \<and> take (length p) s = p)"

datatype error =
    HeightMismatch "64 word" "64 word"
  | EncodeError string
  | DecodeError string
  | GetBlockError "64 word" bytes
  | TxIndexOutOfRange "64 word" "64 word" bytes nat
  | DecodeCommitIDError string
  | NonPositiveVersion
  | TreeLoadError
  | Panic string

section \<open>Key-space prefixer (storage/prefix.go)\<close>

text \<open>\<^verbatim>\<open>func (p Prefix) Key(key []byte) []byte\<close>: the prefix followed by the key, in a
  fresh slice. A nil key appends nothing.\<close>

definition Key :: "bytes \<Rightarrow> bytes \<Rightarrow> bytes" where
  "Key p key = p @ key"

text \<open>\<^verbatim>\<open>func (p Prefix) Suffix(key []byte) []byte\<close> is \<^verbatim>\<open>key[len(p):]\<close>, which panics
  when the key is shorter than the prefix.\<close>

definition Suffix :: "bytes \<Rightarrow> bytes \<Rightarrow> error + bytes" where
  "Suffix p key =
     (if length p \<le> length key then Inr (drop (length p) key)
      else Inl (Panic ''slice bounds out of range''))"

text \<open>
  \<^verbatim>\<open>Above\<close> scans \<^verbatim>\<open>i\<close> from \<^verbatim>\<open>len(p) - 1\<close> down to 0. The loop function takes the
  number \<open>n = i + 1\<close> of bytes still to scan; \<^verbatim>\<open>make([]byte, i+1); copy(inc, p)\<close> is
  \<open>take (Suc i) p\<close>, and \<^verbatim>\<open>inc[i]++\<close> adds one to a byte that is below 255.
\<close>

fun Above_loop :: "bytes \<Rightarrow> nat \<Rightarrow> bytes option" where
  "Above_loop p 0 = None"
| "Above_loop p (Suc i) =
     (if p ! i < 0xff then Some ((take (Suc i) p)[i := p ! i + 1])
      else Above_loop p i)"

definition Above :: "bytes \<Rightarrow> bytes option" where
  "Above p = Above_loop p (length p)"

fun Below_loop :: "bytes \<Rightarrow> nat \<Rightarrow> bytes option" where
  "Below_loop p 0 = None"
| "Below_loop p (Suc i) =
     (if p ! i > 0x00 then Some ((take (Suc i) p)[i := p ! i - 1])
      else Below_loop p i)"

definition Below :: "bytes \<Rightarrow> bytes option" where
  "Below p = Below_loop p (length p)"

text \<open>The bounds of claim C3, over all byte strings that begin with the prefix.\<close>

definition above_all_prefixed :: "bytes \<Rightarrow> bytes \<Rightarrow> bool" where
  "above_all_prefixed p u = (\<forall>s. HasPrefix s p \<longrightarrow> s < u)"

definition below_all_prefixed :: "bytes \<Rightarrow> bytes \<Rightarrow> bool" where
  "below_all_prefixed p u = (\<forall>s. HasPrefix s p \<longrightarrow> u < s)"


section \<open>Range iterator adapter (storage/prefix.go)\<close>

text \<open>
  Modelled from the spec: \<^verbatim>\<open>dbm.Iterator\<close>, the iterator of the physical backend, is
  not among the sources; the spec names it only as "a physical iterator". Its state is a
  type parameter \<open>'it\<close> and its five methods are the fields of this record, so that
  every statement below holds for any physical iterator.
\<close>

record 'it Iterator =
  it_Valid :: "'it \<Rightarrow> bool"
  it_Next :: "'it \<Rightarrow> 'it"
  it_Key :: "'it \<Rightarrow> bytes"
  it_Value :: "'it \<Rightarrow> bytes"
  it_Close :: "'it \<Rightarrow> 'it"

text \<open>\<^verbatim>\<open>type prefixIterator struct\<close>; the field \<^verbatim>\<open>end\<close> is \<open>endb\<close> here.\<close>

record 'it prefixIterator =
  prefix :: bytes
  source :: 'it
  start :: "bytes option"
  endb :: "bytes option"
  invalid :: bool

definition prefixIterator_Close :: "'it Iterator \<Rightarrow> 'it prefixIterator \<Rightarrow> 'it prefixIterator" where
  "prefixIterator_Close ops pi = pi\<lparr>source := it_Close ops (source pi)\<rparr>"

text \<open>\<^verbatim>\<open>validate\<close>: the right operand of \<^verbatim>\<open>||\<close> reads the key only when the source is
  valid, and the value of the disjunction does not depend on it otherwise.\<close>

definition validate :: "'it Iterator \<Rightarrow> 'it prefixIterator \<Rightarrow> 'it prefixIterator" where
  "validate ops pi =
     (if invalid pi then pi
      else
        let sourceValid = it_Valid ops (source pi);
            pi' = pi\<lparr>invalid := \<not> sourceValid \<or> \<not> HasPrefix (it_Key ops (source pi)) (prefix pi)\<rparr>
        in if invalid pi' then prefixIterator_Close ops pi' else pi')"

definition prefixIterator_Valid :: "'it Iterator \<Rightarrow> 'it prefixIterator \<Rightarrow> bool \<times> 'it prefixIterator" where
  "prefixIterator_Valid ops pi =
     (let pi' = validate ops pi
      in (\<not> invalid pi' \<and> it_Valid ops (source pi'), pi'))"

definition prefixIterator_Next :: "'it Iterator \<Rightarrow> 'it prefixIterator \<Rightarrow> error + 'it prefixIterator" where
  "prefixIterator_Next ops pi =
     (if invalid pi then Inl (Panic ''prefixIterator.Next() called on invalid iterator'')
      else Inr (validate ops (pi\<lparr>source := it_Next ops (source pi)\<rparr>)))"

definition prefixIterator_Key :: "'it Iterator \<Rightarrow> 'it prefixIterator \<Rightarrow> error + bytes" where
  "prefixIterator_Key ops pi =
     (if invalid pi then Inl (Panic ''prefixIterator.Key() called on invalid iterator'')
      else Suffix (prefix pi) (it_Key ops (source pi)))"

definition prefixIterator_Value :: "'it Iterator \<Rightarrow> 'it prefixIterator \<Rightarrow> error + bytes" where
  "prefixIterator_Value ops pi =
     (if invalid pi then Inl (Panic ''prefixIterator.Value() called on invalid iterator'')
      else Inr (it_Value ops (source pi)))"

definition prefixIterator_Domain :: "'it prefixIterator \<Rightarrow> bytes option \<times> bytes option" where
  "prefixIterator_Domain pi = (start pi, endb pi)"

text \<open>\<^verbatim>\<open>skipOne\<close>: if the first item of the iterator is \<^verbatim>\<open>skipKey\<close>, skip it.\<close>

definition skipOne :: "'it Iterator \<Rightarrow> 'it \<Rightarrow> bytes option \<Rightarrow> 'it" where
  "skipOne ops iterator skipKey =
     (if it_Valid ops iterator then
        (if bytes_Equal (it_Key ops iterator) skipKey then it_Next ops iterator else iterator)
      else iterator)"

text \<open>\<^verbatim>\<open>Prefix.Iterator\<close> and \<^verbatim>\<open>Prefix.ReverseIterator\<close>; \<^verbatim>\<open>iteratorFn\<close> is the
  backend's constructor of a physical iterator over a physical range.\<close>

definition Iterator ::
  "(bytes option \<Rightarrow> bytes option \<Rightarrow> 'it) \<Rightarrow> bytes \<Rightarrow> bytes option \<Rightarrow> bytes option \<Rightarrow> 'it prefixIterator" where
  "Iterator iteratorFn p st en =
     (let pstart = Some (Key p (slice_bytes st));
          pend = (case en of None \<Rightarrow> Above p | Some e \<Rightarrow> Some (Key p e))
      in \<lparr>prefix = p, source = iteratorFn pstart pend, start = st, endb = en, invalid = False\<rparr>)"

definition ReverseIterator ::
  "'it Iterator \<Rightarrow> (bytes option \<Rightarrow> bytes option \<Rightarrow> 'it) \<Rightarrow> bytes \<Rightarrow> bytes option \<Rightarrow> bytes option
     \<Rightarrow> 'it prefixIterator" where
  "ReverseIterator ops iteratorFn p st en =
     (let above = Above p;
          pstart = (case st of None \<Rightarrow> above | Some s \<Rightarrow> Some (Key p s));
          pend = (case en of None \<Rightarrow> Below p | Some e \<Rightarrow> Some (Key p e))
      in \<lparr>prefix = p, source = skipOne ops (iteratorFn pstart pend) above,
          start = st, endb = en, invalid = False\<rparr>)"

text \<open>
  A caller's use of an iterator is a sequence of method calls. A panic unwinds the call:
  the methods that panic do so before they touch the iterator, so a caller that recovers
  holds the iterator unchanged.
\<close>

datatype call = CallValid | CallNext | CallKey | CallValue | CallClose | CallDomain

datatype outcome =
    RetBool bool
  | RetBytes bytes
  | RetDomain "bytes option" "bytes option"
  | RetUnit
  | Panicked error

fun invoke :: "'it Iterator \<Rightarrow> call \<Rightarrow> 'it prefixIterator \<Rightarrow> outcome \<times> 'it prefixIterator" where
  "invoke ops CallValid pi = (case prefixIterator_Valid ops pi of (b, pi') \<Rightarrow> (RetBool b, pi'))"
| "invoke ops CallNext pi =
     (case prefixIterator_Next ops pi of Inl e \<Rightarrow> (Panicked e, pi) | Inr pi' \<Rightarrow> (RetUnit, pi'))"
| "invoke ops CallKey pi =
     (case prefixIterator_Key ops pi of Inl e \<Rightarrow> (Panicked e, pi) | Inr k \<Rightarrow> (RetBytes k, pi))"
| "invoke ops CallValue pi =
     (case prefixIterator_Value ops pi of Inl e \<Rightarrow> (Panicked e, pi) | Inr v \<Rightarrow> (RetBytes v, pi))"
| "invoke ops CallClose pi = (RetUnit, prefixIterator_Close ops pi)"
| "invoke ops CallDomain pi =
     (case prefixIterator_Domain pi of (s, e) \<Rightarrow> (RetDomain s e, pi))"

fun run :: "'it Iterator \<Rightarrow> call list \<Rightarrow> 'it prefixIterator \<Rightarrow> outcome list \<times> 'it prefixIterator" where
  "run ops [] pi = ([], pi)"
| "run ops (c # cs) pi =
     (case invoke ops c pi of (r, pi') \<Rightarrow>
        (case run ops cs pi' of (rs, pi'') \<Rightarrow> (r # rs, pi'')))"

text \<open>An outcome yields when it is \<^verbatim>\<open>Valid() == true\<close>, a key or a value.\<close>

fun yields :: "outcome \<Rightarrow> bool" where
  "yields (RetBool b) = b"
| "yields (RetBytes k) = True"
| "yields (RetDomain s e) = False"
| "yields RetUnit = False"
| "yields (Panicked e) = False"

text \<open>
  A physical iterator for the examples: the items still ahead, in the order of the scan;
  it is valid while an item is left, and \<^verbatim>\<open>Close\<close> drops them.
\<close>

definition list_Iterator :: "(bytes \<times> bytes) list Iterator" where
  "list_Iterator =
     \<lparr>it_Valid = (\<lambda>xs. xs \<noteq> []),
      it_Next = (\<lambda>xs. case xs of [] \<Rightarrow> [] | x # r \<Rightarrow> r),
      it_Key = (\<lambda>xs. case xs of [] \<Rightarrow> [] | x # r \<Rightarrow> fst x),
      it_Value = (\<lambda>xs. case xs of [] \<Rightarrow> [] | x # r \<Rightarrow> snd x),
      it_Close = (\<lambda>xs. [])\<rparr>"

text \<open>
  The reverse range scan of a backend holding \<open>items\<close> in ascending key order, under the
  convention the comment of \<^verbatim>\<open>ReverseIterator\<close> states: the physical start (the upper
  bound) is inclusive, the physical end (the lower bound) exclusive, nil is unbounded.
\<close>

definition list_ReverseIterator ::
  "(bytes \<times> bytes) list \<Rightarrow> bytes option \<Rightarrow> bytes option \<Rightarrow> (bytes \<times> bytes) list" where
  "list_ReverseIterator items pstart pend =
     filter (\<lambda>kv. (case pstart of None \<Rightarrow> True | Some u \<Rightarrow> fst kv \<le> u)
                 \<and> (case pend of None \<Rightarrow> True | Some l \<Rightarrow> l < fst kv))
            (rev items)"

text \<open>A physical iterator that is never valid and only records the physical range it was
  opened on, to read off the bounds that reach the backend.\<close>

definition bounds_Iterator :: "(bytes option \<times> bytes option) Iterator" where
  "bounds_Iterator =
     \<lparr>it_Valid = (\<lambda>r. False), it_Next = (\<lambda>r. r), it_Key = (\<lambda>r. []), it_Value = (\<lambda>r. []),
      it_Close = (\<lambda>r. r)\<rparr>"

text \<open>A backend of five items for the examples, the keys \<^verbatim>\<open>w\xff\<close>, \<^verbatim>\<open>x\<close>, \<^verbatim>\<open>xa\<close>,
  \<^verbatim>\<open>xb\<close>, \<^verbatim>\<open>y\<close>; the reverse iterator of the sub-store \<^verbatim>\<open>x\<close> over it, unbounded;
  and the same iterator after three calls of \<^verbatim>\<open>Next\<close>.\<close>

definition example_items :: "(bytes \<times> bytes) list" where
  "example_items =
     [([0x77, 0xff], [0]), ([0x78], [1]), ([0x78, 0x61], [2]), ([0x78, 0x62], [3]), ([0x79], [4])]"

definition example_reverse :: "(bytes \<times> bytes) list prefixIterator" where
  "example_reverse =
     ReverseIterator list_Iterator (list_ReverseIterator example_items) [0x78] None None"

definition example_exhausted :: "(bytes \<times> bytes) list prefixIterator" where
  "example_exhausted = snd (run list_Iterator [CallNext, CallNext, CallNext] example_reverse)"


section \<open>Collaborators of the state store\<close>

type_synonym kv = "bytes \<rightharpoonup> bytes"

text \<open>
  Modelled from the spec: \<^verbatim>\<open>storage.KeyFormat\<close> (\<^verbatim>\<open>NewMustKeyFormat\<close>, \<^verbatim>\<open>Key\<close>,
  \<^verbatim>\<open>Scan\<close>) is not among the sources. By the spec's data model a key format is a tag
  followed by fixed-width segments ("tag || address || word", "tag || uint64 || uint64")
  whose byte order is the logical order (ascending height), so an integer segment is its
  bytes with the most significant first, and scanning a key recovers the fields after the
  tag. A hash segment is taken at its full width \<^verbatim>\<open>tmhash.Size\<close>.
\<close>

definition be_bytes :: "nat \<Rightarrow> 'a::len word \<Rightarrow> bytes" where
  "be_bytes n w = map (\<lambda>i. ucast (drop_bit (8 * (n - 1 - i)) w)) [0..<n]"

definition be_word :: "bytes \<Rightarrow> 'a::len word" where
  "be_word bs = foldl (\<lambda>acc b. push_bit 8 acc OR ucast b) 0 bs"

definition KeyFormat_Key :: "bytes \<Rightarrow> bytes list \<Rightarrow> bytes" where
  "KeyFormat_Key tag segments = tag @ concat segments"

definition KeyFormat_Scan2 :: "bytes \<Rightarrow> bytes \<Rightarrow> 64 word \<times> 64 word" where
  "KeyFormat_Scan2 tag key =
     (be_word (take 8 (drop (length tag) key)), be_word (take 8 (drop (length tag + 8) key)))"

text \<open>The constants and key formats of the state store; a format is named by its tag.\<close>

definition uint64Length :: nat where "uint64Length = 8"
definition tmhash_Size :: nat where "tmhash_Size = 32"
definition AddressLength :: nat where "AddressLength = 20"
definition Word256Length :: nat where "Word256Length = 32"

definition treePrefix :: bytes where "treePrefix = [0x6d]"  \<comment> \<open>"m"\<close>
definition refsPrefix :: bytes where "refsPrefix = [0x72]"  \<comment> \<open>"r"\<close>

definition accountKeyFormat :: bytes where "accountKeyFormat = [0x61]"  \<comment> \<open>"a"\<close>
definition storageKeyFormat :: bytes where "storageKeyFormat = [0x73]"  \<comment> \<open>"s"\<close>
definition nameKeyFormat :: bytes where "nameKeyFormat = [0x6e]"  \<comment> \<open>"n"\<close>
definition blockRefKeyFormat :: bytes where "blockRefKeyFormat = [0x62]"  \<comment> \<open>"b"\<close>
definition txRefKeyFormat :: bytes where "txRefKeyFormat = [0x74]"  \<comment> \<open>"t"\<close>
definition txKeyFormat :: bytes where "txKeyFormat = [0x62]"  \<comment> \<open>"b"\<close>
definition commitKeyFormat :: bytes where "commitKeyFormat = [0x78]"  \<comment> \<open>"x"\<close>

text \<open>
  \<^verbatim>\<open>crypto.Address\<close> is a 20-byte array and \<^verbatim>\<open>binary.Word256\<close> a 32-byte array:
  words of 160 and 256 bits, written to keys and values most significant byte first.

  Modelled from the spec: \<^verbatim>\<open>binary.LeftPadWord256\<close> is not among the sources; by the
  spec \<^verbatim>\<open>GetStorage\<close> "returns the zero-padded word", so a nil or short slice is
  padded with zero bytes on its left. A slice longer than a word does not fit one.
\<close>

type_synonym Address = "160 word"
type_synonym Word256 = "256 word"

definition Zero256 :: Word256 where "Zero256 = 0"

definition Word256_Bytes :: "Word256 \<Rightarrow> bytes" where
  "Word256_Bytes w = be_bytes Word256Length w"

definition Address_Bytes :: "Address \<Rightarrow> bytes" where
  "Address_Bytes a = be_bytes AddressLength a"

definition LeftPadWord256 :: "bytes option \<Rightarrow> error + Word256" where
  "LeftPadWord256 bz =
     (if length (slice_bytes bz) \<le> Word256Length then Inr (be_word (slice_bytes bz))
      else Inl (Panic ''slice bounds out of range''))"

text \<open>\<^verbatim>\<open>exec.TxExecution\<close> and \<^verbatim>\<open>exec.BlockExecution\<close>: the fields the store reads;
  the rest of a transaction's execution is an opaque payload.\<close>

record TxExecution =
  TxHash :: bytes
  Payload :: bytes

record BlockExecution =
  Height :: "64 word"
  TxExecutions :: "TxExecution list"

text \<open>\<^verbatim>\<open>type CommitID struct { Hash; Height uint64; Version int64 }\<close>\<close>

record CommitID =
  cid_Hash :: bytes
  cid_Height :: "64 word"
  cid_Version :: int

text \<open>
  Modelled from the spec: the encoders and decoders (\<^verbatim>\<open>BlockExecution.Encode\<close>,
  \<^verbatim>\<open>exec.DecodeBlockExecution\<close>, the amino codec of \<^verbatim>\<open>CommitID\<close>) and the content
  hash of the tree are not among the sources. The spec calls them "an encode/decode
  capability, opaque to this core"; they are the fields of this record, each encoder and
  decoder returning its error or its result.
\<close>

record Collaborators =
  Encode :: "BlockExecution \<Rightarrow> string + bytes"
  DecodeBlockExecution :: "bytes \<Rightarrow> string + BlockExecution"
  MarshalBinary :: "CommitID \<Rightarrow> string + bytes"
  UnmarshalBinary :: "bytes \<Rightarrow> string + CommitID"
  TreeHash :: "kv \<Rightarrow> bytes"

text \<open>
  Modelled from the spec: \<^verbatim>\<open>storage.RWTree\<close> is not among the sources. By the spec the
  versioned tree "holds a working (uncommitted) mutation set plus the set of all
  previously sealed versions"; \<^verbatim>\<open>Set\<close> and \<^verbatim>\<open>Delete\<close> accumulate against the working
  copy; \<^verbatim>\<open>Save\<close> "seals all pending Set/Delete calls since the last Save into a new
  version" with strictly increasing version numbers; \<^verbatim>\<open>Load(version)\<close> "discards any
  working mutations and repoints the tree's readable contents at the given previously
  sealed version" and "fails if version <= 0 or the version does not exist"; and
  "readers query the last-sealed tree", which is why \<^verbatim>\<open>MakeGenesisState\<close> saves once
  "so that readTree points at a non-working-state tree". So \<^verbatim>\<open>Get\<close> and \<^verbatim>\<open>Has\<close>
  answer from \<open>readable\<close>, the version last sealed or loaded. Version \<open>n\<close> is
  \<open>sealed ! (n - 1)\<close>. The spec names no failure of \<^verbatim>\<open>Save\<close>.
\<close>

record RWTree =
  working :: kv
  readable :: kv
  sealed :: "kv list"

definition tree_Get :: "RWTree \<Rightarrow> bytes \<Rightarrow> bytes option" where
  "tree_Get t key = readable t key"

definition tree_Has :: "RWTree \<Rightarrow> bytes \<Rightarrow> bool" where
  "tree_Has t key = (readable t key \<noteq> None)"

definition tree_Set :: "bytes \<Rightarrow> bytes \<Rightarrow> RWTree \<Rightarrow> RWTree" where
  "tree_Set key val t = t\<lparr>working := (working t)(key \<mapsto> val)\<rparr>"

definition tree_Delete :: "bytes \<Rightarrow> RWTree \<Rightarrow> RWTree" where
  "tree_Delete key t = t\<lparr>working := (working t)(key := None)\<rparr>"

definition tree_Save :: "(kv \<Rightarrow> bytes) \<Rightarrow> RWTree \<Rightarrow> error + (bytes \<times> int \<times> RWTree)" where
  "tree_Save hashfn t =
     Inr (hashfn (working t), int (length (sealed t)) + 1,
          t\<lparr>readable := working t, sealed := sealed t @ [working t]\<rparr>)"

definition tree_Load :: "int \<Rightarrow> RWTree \<Rightarrow> error + RWTree" where
  "tree_Load version t =
     (if version \<le> 0 \<or> int (length (sealed t)) < version then Inl TreeLoadError
      else Inr (t\<lparr>working := sealed t ! (nat version - 1),
                  readable := sealed t ! (nat version - 1)\<rparr>))"

text \<open>
  Modelled from the spec: the physical backend \<^verbatim>\<open>dbm.DB\<close> and \<^verbatim>\<open>storage.CacheDB\<close>
  are not among the sources. The backend is "the raw byte-key/byte-value store"; the
  nodes the tree keeps under its prefix are held as the versions they encode. The cache
  "buffers raw writes and flushes them as one synchronous atomic batch to physical
  storage"; a read of the cache falls through to the backend.
\<close>

record DB =
  raw :: kv
  tree_versions :: "kv list"

section \<open>State store (execution/state.go)\<close>

text \<open>\<^verbatim>\<open>type State struct\<close>: the height, the backend, the writes the cache holds, and
  the tree. The reference space \<^verbatim>\<open>refs\<close> is the prefix store of \<^verbatim>\<open>refsPrefix\<close> over the
  cache; the write view \<^verbatim>\<open>writeState\<close> wraps the same state.\<close>

record State =
  height :: "64 word"
  db :: DB
  cacheDB :: kv
  tree :: RWTree

definition CacheDB_Get :: "State \<Rightarrow> bytes \<Rightarrow> bytes option" where
  "CacheDB_Get s key = (case cacheDB s key of Some v \<Rightarrow> Some v | None \<Rightarrow> raw (db s) key)"

definition CacheDB_Has :: "State \<Rightarrow> bytes \<Rightarrow> bool" where
  "CacheDB_Has s key = (CacheDB_Get s key \<noteq> None)"

definition CacheDB_Set :: "bytes \<Rightarrow> bytes \<Rightarrow> State \<Rightarrow> State" where
  "CacheDB_Set key val s = s\<lparr>cacheDB := (cacheDB s)(key \<mapsto> val)\<rparr>"

definition CacheDB_Commit :: "State \<Rightarrow> State" where
  "CacheDB_Commit s =
     s\<lparr>db := \<lparr>raw = raw (db s) ++ cacheDB s, tree_versions = sealed (tree s)\<rparr>,
       cacheDB := Map.empty\<rparr>"

text \<open>\<^verbatim>\<open>prefixKVStore\<close> (storage/prefix.go): each method composes \<^verbatim>\<open>Key\<close> with the
  method of the source.\<close>

definition prefixKVStore_Get :: "bytes \<Rightarrow> (bytes \<Rightarrow> bytes option) \<Rightarrow> bytes \<Rightarrow> bytes option" where
  "prefixKVStore_Get p source_Get key = source_Get (Key p key)"

definition prefixKVStore_Has :: "bytes \<Rightarrow> (bytes \<Rightarrow> bool) \<Rightarrow> bytes \<Rightarrow> bool" where
  "prefixKVStore_Has p source_Has key = source_Has (Key p key)"

definition prefixKVStore_Set :: "bytes \<Rightarrow> (bytes \<Rightarrow> bytes \<Rightarrow> 'st \<Rightarrow> 'st) \<Rightarrow> bytes \<Rightarrow> bytes \<Rightarrow> 'st \<Rightarrow> 'st" where
  "prefixKVStore_Set p source_Set key val = source_Set (Key p key) val"

definition refs_Get :: "State \<Rightarrow> bytes \<Rightarrow> bytes option" where
  "refs_Get s key = prefixKVStore_Get refsPrefix (CacheDB_Get s) key"

definition refs_Has :: "State \<Rightarrow> bytes \<Rightarrow> bool" where
  "refs_Has s key = prefixKVStore_Has refsPrefix (CacheDB_Has s) key"

definition refs_Set :: "bytes \<Rightarrow> bytes \<Rightarrow> State \<Rightarrow> State" where
  "refs_Set key val s = prefixKVStore_Set refsPrefix CacheDB_Set key val s"

definition NewRWTree :: "DB \<Rightarrow> RWTree" where
  "NewRWTree d = \<lparr>working = Map.empty, readable = Map.empty, sealed = tree_versions d\<rparr>"

definition NewState :: "DB \<Rightarrow> State" where
  "NewState d = \<lparr>height = 0, db = d, cacheDB = Map.empty, tree = NewRWTree d\<rparr>"

definition LoadState :: "Collaborators \<Rightarrow> DB \<Rightarrow> bytes \<Rightarrow> error + State" where
  "LoadState cdc d hash =
     (let s = NewState d
      in case UnmarshalBinary cdc (slice_bytes (refs_Get s (KeyFormat_Key commitKeyFormat [hash]))) of
           Inl e \<Rightarrow> Inl (DecodeCommitIDError e)
         | Inr commitID \<Rightarrow>
             if cid_Version commitID \<le> 0 then Inl NonPositiveVersion
             else (case tree_Load (cid_Version commitID) (tree s) of
                     Inl e \<Rightarrow> Inl TreeLoadError
                   | Inr t \<Rightarrow> Inr (s\<lparr>tree := t\<rparr>)))"

text \<open>\<^verbatim>\<open>commit\<close> returns the hash or the error, and the state it leaves.\<close>

definition commit :: "Collaborators \<Rightarrow> State \<Rightarrow> (error + bytes) \<times> State" where
  "commit cdc s =
     (case tree_Save (TreeHash cdc) (tree s) of
        Inl e \<Rightarrow> (Inl e, s)
      | Inr (hash0, treeVersion, t) \<Rightarrow>
          let s1 = s\<lparr>tree := t\<rparr>;
              hash = (if length hash0 = 0 then replicate tmhash_Size 0 else hash0);
              commitID = \<lparr>cid_Hash = hash, cid_Height = height s1, cid_Version = treeVersion\<rparr>
          in (case MarshalBinary cdc commitID of
                Inl e \<Rightarrow> (Inl (EncodeError e), s1)
              | Inr bs \<Rightarrow>
                  (Inr hash, CacheDB_Commit (refs_Set (KeyFormat_Key commitKeyFormat [hash]) bs s1))))"

text \<open>\<^verbatim>\<open>Update\<close>: the updater runs against the write view; its error skips the commit.
  An updater returns its error (\<open>None\<close> is nil) and the state it leaves.\<close>

definition Update :: "Collaborators \<Rightarrow> (State \<Rightarrow> error option \<times> State) \<Rightarrow> State \<Rightarrow> (error + bytes) \<times> State" where
  "Update cdc updater s =
     (case updater s of
        (Some err, s1) \<Rightarrow> (Inl err, s1)
      | (None, s1) \<Rightarrow> commit cdc s1)"

definition GetStorage :: "State \<Rightarrow> Address \<Rightarrow> Word256 \<Rightarrow> error + Word256" where
  "GetStorage s address key =
     LeftPadWord256 (tree_Get (tree s) (KeyFormat_Key storageKeyFormat [Address_Bytes address, Word256_Bytes key]))"

definition SetStorage :: "Address \<Rightarrow> Word256 \<Rightarrow> Word256 \<Rightarrow> State \<Rightarrow> error option \<times> State" where
  "SetStorage address key val s =
     (if val = Zero256 then
        (None, s\<lparr>tree := tree_Delete (KeyFormat_Key storageKeyFormat [Address_Bytes address, Word256_Bytes key]) (tree s)\<rparr>)
      else
        (None, s\<lparr>tree := tree_Set (KeyFormat_Key storageKeyFormat [Address_Bytes address, Word256_Bytes key])
                            (Word256_Bytes val) (tree s)\<rparr>))"

definition addTx :: "bytes \<Rightarrow> 64 word \<Rightarrow> 64 word \<Rightarrow> State \<Rightarrow> State" where
  "addTx txHash h index s =
     refs_Set (KeyFormat_Key txKeyFormat [txHash])
              (KeyFormat_Key txRefKeyFormat [be_bytes uint64Length h, be_bytes uint64Length index]) s"

text \<open>The loop of \<^verbatim>\<open>AddBlock\<close> over \<^verbatim>\<open>be.TxExecutions\<close>, \<open>i\<close> the index of the head.\<close>

fun addTxs :: "64 word \<Rightarrow> nat \<Rightarrow> TxExecution list \<Rightarrow> State \<Rightarrow> State" where
  "addTxs h i [] s = s"
| "addTxs h i (txe # txes) s = addTxs h (Suc i) txes (addTx (TxHash txe) h (of_nat i) s)"

definition AddBlock :: "Collaborators \<Rightarrow> BlockExecution \<Rightarrow> State \<Rightarrow> error option \<times> State" where
  "AddBlock cdc be s =
     (if height s > 0 \<and> Height be \<noteq> height s + 1 then
        (Some (HeightMismatch (Height be) (height s)), s)
      else
        let s1 = s\<lparr>height := Height be\<rparr>;
            s2 = addTxs (Height be) 0 (TxExecutions be) s1
        in case Encode cdc be of
             Inl e \<Rightarrow> (Some (EncodeError e), s2)
           | Inr bs \<Rightarrow> (None, refs_Set (KeyFormat_Key blockRefKeyFormat [be_bytes uint64Length (Height be)]) bs s2))"

definition GetBlock :: "Collaborators \<Rightarrow> State \<Rightarrow> 64 word \<Rightarrow> error + BlockExecution option" where
  "GetBlock cdc s h =
     (let bs = tree_Get (tree s) (KeyFormat_Key blockRefKeyFormat [be_bytes uint64Length h])
      in if len_zero bs then Inr None
         else (case DecodeBlockExecution cdc (slice_bytes bs) of
                 Inl e \<Rightarrow> Inl (DecodeError e)
               | Inr be \<Rightarrow> Inr (Some be)))"

text \<open>\<^verbatim>\<open>GetTx\<close>. \<^verbatim>\<open>GetBlock\<close> returns a nil block with no error when the block is
  absent, and \<^verbatim>\<open>len(be.TxExecutions)\<close> then dereferences the nil pointer.\<close>

definition GetTx :: "Collaborators \<Rightarrow> State \<Rightarrow> bytes \<Rightarrow> error + TxExecution option" where
  "GetTx cdc s txHash =
     (let bs = tree_Get (tree s) (KeyFormat_Key txKeyFormat [txHash])
      in if len_zero bs then Inr None
         else
           let (h, index) = KeyFormat_Scan2 txRefKeyFormat (slice_bytes bs)
           in case GetBlock cdc s h of
                Inl e \<Rightarrow> Inl (GetBlockError h txHash)
              | Inr None \<Rightarrow> Inl (Panic ''invalid memory address or nil pointer dereference'')
              | Inr (Some be) \<Rightarrow>
                  if unat index < length (TxExecutions be) then Inr (Some (TxExecutions be ! unat index))
                  else Inl (TxIndexOutOfRange index h txHash (length (TxExecutions be))))"

text \<open>
  An encoding for the examples: a block execution is its height in 8 bytes, then each
  transaction as the length of its hash, the hash, the length of its payload and the
  payload (one byte for a length, so for fields shorter than 256 bytes); a \<^verbatim>\<open>CommitID\<close>
  is its height and version in 8 bytes each, then its hash. A tree's content hash is
  taken empty, which \<^verbatim>\<open>commit\<close> normalises to the zero hash.
\<close>

fun encode_txs :: "TxExecution list \<Rightarrow> bytes" where
  "encode_txs [] = []"
| "encode_txs (t # ts) =
     of_nat (length (TxHash t)) # TxHash t @ of_nat (length (Payload t)) # Payload t @ encode_txs ts"

fun decode_txs :: "nat \<Rightarrow> bytes \<Rightarrow> TxExecution list option" where
  "decode_txs fuel [] = Some []"
| "decode_txs 0 (n # bs) = None"
| "decode_txs (Suc fuel) (n # bs) =
     (if length bs < unat n + 1 then None
      else
        let h = take (unat n) bs; r = drop (unat n) bs; m = unat (hd r); r' = tl r
        in if length r' < m then None
           else (case decode_txs fuel (drop m r') of
                   None \<Rightarrow> None
                 | Some ts \<Rightarrow> Some (\<lparr>TxHash = h, Payload = take m r'\<rparr> # ts)))"

definition example_codec :: Collaborators where
  "example_codec =
     \<lparr>Encode = (\<lambda>be. Inr (be_bytes 8 (Height be) @ encode_txs (TxExecutions be))),
      DecodeBlockExecution = (\<lambda>bs.
         if length bs < 8 then Inl ''short block''
         else (case decode_txs (length bs) (drop 8 bs) of
                 None \<Rightarrow> Inl ''malformed transactions''
               | Some ts \<Rightarrow> Inr \<lparr>Height = be_word (take 8 bs), TxExecutions = ts\<rparr>)),
      MarshalBinary = (\<lambda>c. Inr (be_bytes 8 (cid_Height c) @ be_bytes 8 (word_of_int (cid_Version c) :: 64 word) @ cid_Hash c)),
      UnmarshalBinary = (\<lambda>bs.
         if length bs < 16 then Inl ''short CommitID''
         else Inr \<lparr>cid_Hash = drop 16 bs, cid_Height = be_word (take 8 bs),
                   cid_Version = sint (be_word (take 8 (drop 8 bs)) :: 64 word)\<rparr>),
      TreeHash = (\<lambda>m. [])\<rparr>"

text \<open>The same collaborators with an encoder of block executions that returns its
  error.\<close>

definition failing_codec :: Collaborators where
  "failing_codec = example_codec\<lparr>Encode := (\<lambda>be. Inl ''unencodable'')\<rparr>"

text \<open>An empty backend, and block executions of one transaction for the examples.\<close>

definition empty_DB :: DB where
  "empty_DB = \<lparr>raw = Map.empty, tree_versions = []\<rparr>"

definition example_hash :: bytes where
  "example_hash = replicate 32 0xab"

definition example_block :: "64 word \<Rightarrow> BlockExecution" where
  "example_block h = \<lparr>Height = h, TxExecutions = [\<lparr>TxHash = example_hash, Payload = [1, 2, 3]\<rparr>]\<rparr>"

text \<open>The state after \<^verbatim>\<open>Update\<close> has added a block of height \<open>h\<close> to a fresh state over
  the empty backend, and the zero hash that its commit returns.\<close>

definition example_committed :: "64 word \<Rightarrow> State" where
  "example_committed h =
     snd (Update example_codec (AddBlock example_codec (example_block h)) (NewState empty_DB))"

definition zero_hash :: bytes where
  "zero_hash = replicate tmhash_Size 0"


section \<open>Lemmas on prefixes and the lexicographic order\<close>

lemma HasPrefix_iff: "HasPrefix s p \<longleftrightarrow> (\<exists>t. s = p @ t)"
proof
  assume "HasPrefix s p"
  then have "s = p @ drop (length p) s"
    by (metis HasPrefix_def append_take_drop_id)
  then show "\<exists>t. s = p @ t" ..
next
  assume "\<exists>t. s = p @ t"
  then show "HasPrefix s p" by (auto simp: HasPrefix_def)
qed

lemma HasPrefix_Key: "HasPrefix (Key p k) p"
  by (simp add: HasPrefix_iff Key_def)

lemma append_less_cancel: "(q @ x < q @ y) = (x < (y :: bytes))"
  by (induction q) simp_all

lemma append_le_cancel: "(q @ x \<le> q @ y) = (x \<le> (y :: bytes))"
  by (induction q) simp_all

lemma byte_le_ff: "(x :: byte) \<le> 0xff"
proof -
  have "(0xff :: byte) = - 1" by simp
  then show ?thesis by (simp only: word_order.extremum)
qed

lemma byte_less_inc: "(c :: byte) < 0xff \<Longrightarrow> c < c + 1"
  using sub_wrap_lt word_order.not_eq_extremum by force

lemma byte_less_inc_le: "(x :: byte) < c + 1 \<Longrightarrow> c < 0xff \<Longrightarrow> x \<le> c"
  by (simp add: Word.less_inc_imp_less_eq)

lemma byte_dec_less: "(0 :: byte) < c \<Longrightarrow> c - 1 < c"
  using less_eq_dec_triv_imp verit_comp_simplify1(3) by blast

lemma le_replicate_ff: "length u \<le> n \<Longrightarrow> u \<le> replicate n (0xff :: byte)"
proof (induction u arbitrary: n)
  case Nil
  then show ?case by simp
next
  case (Cons x u)
  then obtain m where n: "n = Suc m" and m: "length u \<le> m"
    by (cases n) auto
  have "x < 0xff \<or> x = 0xff"
    using byte_le_ff [of x] by auto
  with Cons.IH [OF m] n show ?case by auto
qed

lemma less_Above_shape:
  "u < q @ [c + 1] \<Longrightarrow> c < 0xff \<Longrightarrow> length u \<le> n \<Longrightarrow>
   u \<le> q @ c # replicate k 0xff @ replicate n (0xff :: byte)"
proof (induction q arbitrary: u n)
  case Nil
  show ?case
  proof (cases u)
    case Nil
    then show ?thesis by simp
  next
    case (Cons x u')
    with Nil.prems have "x < c + 1" by simp
    then have "x \<le> c" using Nil.prems(2) by (rule byte_less_inc_le)
    moreover have "u' \<le> replicate (k + n) 0xff"
      using Nil.prems(3) Cons by (intro le_replicate_ff) simp
    ultimately show ?thesis using Cons by (auto simp: replicate_add)
  qed
next
  case (Cons y q)
  show ?case
  proof (cases u)
    case Nil
    then show ?thesis by simp
  next
    case u: (Cons x u')
    with Cons.prems have "x < y \<or> x = y \<and> u' < q @ [c + 1]" by simp
    then show ?thesis
    proof
      assume "x < y" then show ?thesis using u by simp
    next
      assume h: "x = y \<and> u' < q @ [c + 1]"
      have "length u' \<le> n" using Cons.prems(3) u by simp
      from Cons.IH [OF conjunct2 [OF h] Cons.prems(2) this] h u show ?thesis by simp
    qed
  qed
qed

lemma Above_loop_None:
  "n \<le> length p \<Longrightarrow> Above_loop p n = None \<longleftrightarrow> (\<forall>j<n. p ! j = 0xff)"
proof (induction n)
  case 0
  then show ?case by simp
next
  case (Suc n)
  have "p ! n \<le> 0xff" by (rule byte_le_ff)
  then have e: "\<not> p ! n < 0xff \<longleftrightarrow> p ! n = 0xff" by auto
  from Suc show ?case by (auto simp: e less_Suc_eq)
qed

lemma Above_loop_Some:
  "Above_loop p n = Some a \<Longrightarrow> n \<le> length p \<Longrightarrow> \<forall>j. n \<le> j \<and> j < length p \<longrightarrow> p ! j = 0xff \<Longrightarrow>
   \<exists>q c k. p = q @ c # replicate k 0xff \<and> c < 0xff \<and> a = q @ [c + 1]"
proof (induction n)
  case 0
  then show ?case by simp
next
  case (Suc i)
  show ?case
  proof (cases "p ! i < 0xff")
    case True
    have il: "i < length p" using Suc.prems(2) by simp
    have a: "a = take i p @ [p ! i + 1]"
      using Suc.prems(1) True il by (simp add: upd_conv_take_nth_drop)
    have "\<forall>b\<in>set (drop (Suc i) p). b = 0xff"
      using Suc.prems(3) by (auto simp: in_set_conv_nth)
    then obtain k where "drop (Suc i) p = replicate k 0xff"
      by (metis replicate_length_same)
    then have "p = take i p @ p ! i # replicate k 0xff"
      using id_take_nth_drop [OF il] by simp
    with a True show ?thesis by blast
  next
    case False
    have "p ! i \<le> 0xff" by (rule byte_le_ff)
    with False have pi: "p ! i = 0xff" by auto
    have "\<forall>j. i \<le> j \<and> j < length p \<longrightarrow> p ! j = 0xff"
    proof (intro allI impI)
      fix j assume "i \<le> j \<and> j < length p"
      then have "j = i \<or> (Suc i \<le> j \<and> j < length p)" by auto
      then show "p ! j = 0xff" using Suc.prems(3) pi by blast
    qed
    moreover have "Above_loop p i = Some a" using Suc.prems(1) False by simp
    ultimately show ?thesis using Suc.IH Suc.prems(2) by simp
  qed
qed

lemma less_Below_shape:
  "(0 :: byte) < c \<Longrightarrow> q @ [c - 1] < q @ c # t"
  by (simp add: append_less_cancel byte_dec_less)

lemma less_Above_upper:
  "(c :: byte) < 0xff \<Longrightarrow> q @ c # t < q @ [c + 1]"
  by (simp add: append_less_cancel byte_less_inc)

lemma Below_loop_None:
  "n \<le> length p \<Longrightarrow> Below_loop p n = None \<longleftrightarrow> (\<forall>j<n. p ! j = 0)"
proof (induction n)
  case 0
  then show ?case by simp
next
  case (Suc n)
  have e: "\<not> 0 < p ! n \<longleftrightarrow> p ! n = 0"
    using word_neq_0_conv [of "p ! n"] by auto
  from Suc show ?case by (auto simp: e less_Suc_eq)
qed

lemma Below_loop_Some:
  "Below_loop p n = Some a \<Longrightarrow> n \<le> length p \<Longrightarrow> \<forall>j. n \<le> j \<and> j < length p \<longrightarrow> p ! j = 0 \<Longrightarrow>
   \<exists>q c k. p = q @ c # replicate k 0 \<and> 0 < c \<and> a = q @ [c - 1]"
proof (induction n)
  case 0
  then show ?case by simp
next
  case (Suc i)
  show ?case
  proof (cases "0 < p ! i")
    case True
    have il: "i < length p" using Suc.prems(2) by simp
    have a: "a = take i p @ [p ! i - 1]"
      using Suc.prems(1) True il by (simp add: upd_conv_take_nth_drop)
    have "\<forall>b\<in>set (drop (Suc i) p). b = 0"
      using Suc.prems(3) by (auto simp: in_set_conv_nth)
    then obtain k where "drop (Suc i) p = replicate k 0"
      by (metis replicate_length_same)
    then have "p = take i p @ p ! i # replicate k 0"
      using id_take_nth_drop [OF il] by simp
    with a True show ?thesis by blast
  next
    case False
    then have pi: "p ! i = 0"
      using word_neq_0_conv [of "p ! i"] by auto
    have "\<forall>j. i \<le> j \<and> j < length p \<longrightarrow> p ! j = 0"
    proof (intro allI impI)
      fix j assume "i \<le> j \<and> j < length p"
      then have "j = i \<or> (Suc i \<le> j \<and> j < length p)" by auto
      then show "p ! j = 0" using Suc.prems(3) pi by blast
    qed
    moreover have "Below_loop p i = Some a" using Suc.prems(1) False by simp
    ultimately show ?thesis using Suc.IH Suc.prems(2) by simp
  qed
qed

lemma all_nth_iff_set: "(\<forall>j<length p. p ! j = x) \<longleftrightarrow> (\<forall>b\<in>set p. b = x)"
  by (simp add: all_set_conv_all_nth)

lemma Above_None_iff: "Above p = None \<longleftrightarrow> (\<forall>b\<in>set p. b = 0xff)"
  by (simp add: Above_def Above_loop_None all_nth_iff_set)

lemma Below_None_iff: "Below p = None \<longleftrightarrow> (\<forall>b\<in>set p. b = 0)"
  by (simp add: Below_def Below_loop_None all_nth_iff_set)

lemma Above_Some_shape:
  assumes "Above p = Some a"
  shows "\<exists>q c k. p = q @ c # replicate k 0xff \<and> c < 0xff \<and> a = q @ [c + 1]"
proof -
  have "\<forall>j. length p \<le> j \<and> j < length p \<longrightarrow> p ! j = 0xff" by auto
  with assms show ?thesis
    using Above_loop_Some [of p "length p" a] by (simp only: Above_def le_refl)
qed

lemma Below_Some_shape:
  assumes "Below p = Some a"
  shows "\<exists>q c k. p = q @ c # replicate k 0 \<and> 0 < c \<and> a = q @ [c - 1]"
proof -
  have "\<forall>j. length p \<le> j \<and> j < length p \<longrightarrow> p ! j = 0" by auto
  with assms show ?thesis
    using Below_loop_Some [of p "length p" a] by (simp only: Below_def le_refl)
qed

lemma Above_is_upper:
  assumes "Above p = Some a"
  shows "above_all_prefixed p a"
proof -
  obtain q c k where p: "p = q @ c # replicate k 0xff" and c: "c < 0xff" and a: "a = q @ [c + 1]"
    using Above_Some_shape [OF assms] by blast
  show ?thesis
    unfolding above_all_prefixed_def
  proof (intro allI impI)
    fix s assume "HasPrefix s p"
    then obtain t where "s = p @ t" by (auto simp: HasPrefix_iff)
    then have "s = q @ c # (replicate k 0xff @ t)" using p by simp
    then show "s < a" using a less_Above_upper [OF c] by simp
  qed
qed

lemma Above_is_least:
  assumes "Above p = Some a" and u: "above_all_prefixed p u"
  shows "a \<le> u"
proof (rule ccontr)
  assume "\<not> a \<le> u"
  then have ua: "u < a" by simp
  obtain q c k where p: "p = q @ c # replicate k 0xff" and c: "c < 0xff" and a: "a = q @ [c + 1]"
    using Above_Some_shape [OF assms(1)] by blast
  have "u \<le> q @ c # replicate k 0xff @ replicate (length u) 0xff"
    using less_Above_shape [OF _ c, of u q "length u" k] ua a by simp
  then have "u \<le> p @ replicate (length u) 0xff" using p by simp
  moreover have "HasPrefix (p @ replicate (length u) 0xff) p"
    by (auto simp: HasPrefix_iff)
  then have "p @ replicate (length u) 0xff < u"
    using u by (simp add: above_all_prefixed_def)
  ultimately show False by simp
qed

lemma Below_is_lower:
  assumes "Below p = Some b"
  shows "below_all_prefixed p b"
proof -
  obtain q c k where p: "p = q @ c # replicate k 0" and c: "0 < c" and b: "b = q @ [c - 1]"
    using Below_Some_shape [OF assms] by blast
  show ?thesis
    unfolding below_all_prefixed_def
  proof (intro allI impI)
    fix s assume "HasPrefix s p"
    then obtain t' where "s = p @ t'" by (auto simp: HasPrefix_iff)
    then have "s = q @ c # (replicate k 0 @ t')" using p by simp
    then show "b < s" using b less_Below_shape [OF c] by simp
  qed
qed

lemma below_all_prefixed_iff: "below_all_prefixed p u \<longleftrightarrow> u < p"
proof
  assume "below_all_prefixed p u"
  moreover have "HasPrefix p p" by (simp add: HasPrefix_def)
  ultimately show "u < p" by (simp add: below_all_prefixed_def)
next
  assume up: "u < p"
  show "below_all_prefixed p u"
    unfolding below_all_prefixed_def
  proof (intro allI impI)
    fix s assume "HasPrefix s p"
    then obtain t where s: "s = p @ t" by (auto simp: HasPrefix_iff)
    have "p @ [] \<le> p @ t" by (simp only: append_le_cancel) simp
    then have "p \<le> s" using s by simp
    with up show "u < s" by simp
  qed
qed


section \<open>Lemmas on the iterator adapter\<close>

lemma validate_invalid: "invalid pi \<Longrightarrow> validate ops pi = pi"
  by (simp add: validate_def)

lemma validate_prefix: "prefix (validate ops pi) = prefix pi"
  by (simp add: validate_def prefixIterator_Close_def Let_def)

lemma validate_keeps_invalid: "invalid pi \<Longrightarrow> invalid (validate ops pi)"
  by (simp add: validate_invalid)

lemma validate_not_invalid:
  "\<not> invalid (validate ops pi) \<Longrightarrow>
     validate ops pi = pi \<and> it_Valid ops (source pi) \<and> HasPrefix (it_Key ops (source pi)) (prefix pi)"
  by (auto simp: validate_def prefixIterator_Close_def Let_def split: if_splits)

lemma validate_invalid_iff:
  "\<not> invalid pi \<Longrightarrow>
     invalid (validate ops pi) \<longleftrightarrow> \<not> it_Valid ops (source pi) \<or> \<not> HasPrefix (it_Key ops (source pi)) (prefix pi)"
  by (auto simp: validate_def prefixIterator_Close_def Let_def)

lemma Valid_true:
  assumes "fst (prefixIterator_Valid ops pi)"
  shows "snd (prefixIterator_Valid ops pi) = pi" and "\<not> invalid pi"
    and "it_Valid ops (source pi)" and "HasPrefix (it_Key ops (source pi)) (prefix pi)"
proof -
  from assms have n: "\<not> invalid (validate ops pi)"
    by (simp add: prefixIterator_Valid_def Let_def)
  from validate_not_invalid [OF n] show "snd (prefixIterator_Valid ops pi) = pi"
    by (simp add: prefixIterator_Valid_def Let_def)
  from validate_not_invalid [OF n] n show "\<not> invalid pi" by metis
  from validate_not_invalid [OF n] show "it_Valid ops (source pi)" by simp
  from validate_not_invalid [OF n] show "HasPrefix (it_Key ops (source pi)) (prefix pi)" by simp
qed

lemma Valid_false:
  assumes "\<not> fst (prefixIterator_Valid ops pi)"
  shows "invalid (snd (prefixIterator_Valid ops pi))"
proof (rule ccontr)
  assume "\<not> invalid (snd (prefixIterator_Valid ops pi))"
  then have n: "\<not> invalid (validate ops pi)"
    by (simp add: prefixIterator_Valid_def Let_def)
  from validate_not_invalid [OF n] n have "fst (prefixIterator_Valid ops pi)"
    by (simp add: prefixIterator_Valid_def Let_def)
  with assms show False by simp
qed

lemma Suffix_Key: "HasPrefix k p \<Longrightarrow> \<exists>l. Suffix p k = Inr l \<and> Key p l = k"
  by (auto simp: HasPrefix_iff Suffix_def Key_def)

lemma invoke_invalid:
  "invalid pi \<Longrightarrow> invalid (snd (invoke ops c pi)) \<and> \<not> yields (fst (invoke ops c pi))"
  by (cases c)
    (simp_all add: prefixIterator_Valid_def prefixIterator_Next_def prefixIterator_Key_def
      prefixIterator_Value_def prefixIterator_Close_def prefixIterator_Domain_def
      validate_invalid Let_def)

lemma run_invalid:
  "invalid pi \<Longrightarrow> invalid (snd (run ops cs pi)) \<and> list_all (\<lambda>r. \<not> yields r) (fst (run ops cs pi))"
proof (induction cs arbitrary: pi)
  case Nil
  then show ?case by simp
next
  case (Cons c cs)
  obtain r pi' where i: "invoke ops c pi = (r, pi')" by (cases "invoke ops c pi")
  with invoke_invalid [OF Cons.prems, of ops c] have inv: "invalid pi'" and r: "\<not> yields r"
    by simp_all
  obtain rs pi'' where rn: "run ops cs pi' = (rs, pi'')" by (cases "run ops cs pi'")
  from Cons.IH [OF inv] rn have "invalid pi''" and "list_all (\<lambda>r. \<not> yields r) rs" by simp_all
  with i rn r show ?case by simp
qed

lemma invoke_prefix: "prefix (snd (invoke ops c pi)) = prefix pi"
  by (cases c)
    (simp_all add: prefixIterator_Valid_def prefixIterator_Next_def prefixIterator_Key_def
      prefixIterator_Value_def prefixIterator_Close_def prefixIterator_Domain_def
      validate_prefix Let_def split: sum.splits)


section \<open>Lemmas on the state store\<close>

lemma refs_Set_fields [simp]:
  "height (refs_Set k v s) = height s" "tree (refs_Set k v s) = tree s" "db (refs_Set k v s) = db s"
  by (simp_all add: refs_Set_def prefixKVStore_Set_def CacheDB_Set_def)

lemma addTx_fields [simp]:
  "height (addTx x h i s) = height s" "tree (addTx x h i s) = tree s" "db (addTx x h i s) = db s"
  by (simp_all add: addTx_def)

lemma addTxs_fields [simp]:
  "height (addTxs h i txs s) = height s" "tree (addTxs h i txs s) = tree s"
  "db (addTxs h i txs s) = db s"
  by (induction txs arbitrary: i s) simp_all

lemma AddBlock_rejected:
  "\<not> (height s = 0 \<or> Height be = height s + 1) \<Longrightarrow>
     AddBlock cdc be s = (Some (HeightMismatch (Height be) (height s)), s)"
  by (simp add: AddBlock_def word_gt_0)

lemma AddBlock_accepted:
  "height s = 0 \<or> Height be = height s + 1 \<Longrightarrow>
     AddBlock cdc be s =
       (case Encode cdc be of
          Inl e \<Rightarrow> (Some (EncodeError e), addTxs (Height be) 0 (TxExecutions be) (s\<lparr>height := Height be\<rparr>))
        | Inr bs \<Rightarrow> (None, refs_Set (KeyFormat_Key blockRefKeyFormat [be_bytes uint64Length (Height be)]) bs
                           (addTxs (Height be) 0 (TxExecutions be) (s\<lparr>height := Height be\<rparr>))))"
  by (auto simp: AddBlock_def word_gt_0 Let_def)

lemma LoadState_Inr:
  assumes "LoadState cdc d hash = Inr s"
  shows "\<exists>c. UnmarshalBinary cdc (slice_bytes (raw d (Key refsPrefix (KeyFormat_Key commitKeyFormat [hash])))) = Inr c
            \<and> 0 < cid_Version c \<and> cid_Version c \<le> int (length (tree_versions d))
            \<and> s = (NewState d)\<lparr>tree := (NewRWTree d)\<lparr>working := tree_versions d ! (nat (cid_Version c) - 1),
                                                      readable := tree_versions d ! (nat (cid_Version c) - 1)\<rparr>\<rparr>"
proof -
  have g: "refs_Get (NewState d) k = raw d (Key refsPrefix k)" for k
    by (simp add: refs_Get_def prefixKVStore_Get_def CacheDB_Get_def NewState_def)
  have t: "tree (NewState d) = NewRWTree d" by (simp add: NewState_def)
  show ?thesis
    using assms unfolding LoadState_def Let_def g t
    by (auto simp: tree_Load_def NewRWTree_def split: sum.splits if_splits)
qed

lemma commit_tree:
  "readable (tree (snd (commit cdc s))) = working (tree s)
   \<and> working (tree (snd (commit cdc s))) = working (tree s)"
  by (simp add: commit_def tree_Save_def CacheDB_Commit_def Let_def split: sum.splits)

lemma LeftPadWord256_nil: "LeftPadWord256 None = Inr Zero256"
  by (simp add: LeftPadWord256_def slice_bytes_def be_word_def Zero256_def)

text \<open>What \<open>AddBlock\<close> writes for a transaction: under the reference prefix, the tag of
  \<open>txKeyFormat\<close> and the hash, the tag of \<open>txRefKeyFormat\<close> followed by the height and
  the index, the last index winning when a hash occurs twice in the block.\<close>

lemma refs_Get_refs_Set:
  "refs_Get (refs_Set k v s) k' = (if k' = k then Some v else refs_Get s k')"
  by (simp add: refs_Get_def refs_Set_def prefixKVStore_Get_def prefixKVStore_Set_def
      CacheDB_Get_def CacheDB_Set_def Key_def split: option.splits)

lemma KeyFormat_Key_inj: "KeyFormat_Key t [a] = KeyFormat_Key t [b] \<longleftrightarrow> a = b"
  by (simp add: KeyFormat_Key_def)

lemma length_be_bytes: "length (be_bytes n w) = n"
  by (simp add: be_bytes_def)

lemma addTxs_refs_other:
  "\<forall>t\<in>set txs. TxHash t \<noteq> H \<Longrightarrow>
     refs_Get (addTxs h i txs s) (KeyFormat_Key txKeyFormat [H]) = refs_Get s (KeyFormat_Key txKeyFormat [H])"
  by (induction txs arbitrary: i s) (auto simp: addTx_def refs_Get_refs_Set KeyFormat_Key_inj)

lemma addTxs_refs:
  "i < length txs \<Longrightarrow> \<forall>j. i < j \<and> j < length txs \<longrightarrow> TxHash (txs ! j) \<noteq> TxHash (txs ! i) \<Longrightarrow>
     refs_Get (addTxs h i0 txs s) (KeyFormat_Key txKeyFormat [TxHash (txs ! i)])
       = Some (KeyFormat_Key txRefKeyFormat [be_bytes uint64Length h, be_bytes uint64Length (of_nat (i0 + i) :: 64 word)])"
proof (induction txs arbitrary: i i0 s)
  case Nil
  then show ?case by simp
next
  case (Cons t ts)
  show ?case
  proof (cases i)
    case 0
    have "\<forall>u\<in>set ts. TxHash u \<noteq> TxHash t"
    proof
      fix u assume "u \<in> set ts"
      then obtain j where "j < length ts" "ts ! j = u" by (auto simp: in_set_conv_nth)
      with Cons.prems(2) [rule_format, of "Suc j"] 0 show "TxHash u \<noteq> TxHash t" by auto
    qed
    from addTxs_refs_other [OF this] 0 show ?thesis
      by (simp add: addTx_def refs_Get_refs_Set)
  next
    case (Suc i')
    have a: "i' < length ts" using Cons.prems(1) Suc by simp
    have b: "\<forall>j. i' < j \<and> j < length ts \<longrightarrow> TxHash (ts ! j) \<noteq> TxHash (ts ! i')"
    proof (intro allI impI)
      fix j assume "i' < j \<and> j < length ts"
      with Cons.prems(2) [rule_format, of "Suc j"] Suc show "TxHash (ts ! j) \<noteq> TxHash (ts ! i')" by simp
    qed
    from Cons.IH [OF a b] Suc show ?thesis by (simp add: add.assoc)
  qed
qed

lemma AddBlock_tx_reference:
  assumes "height s = 0 \<or> Height be = height s + 1"
    and "Encode cdc be = Inr bs"
    and "i < length (TxExecutions be)"
    and "\<forall>j. i < j \<and> j < length (TxExecutions be) \<longrightarrow> TxHash (TxExecutions be ! j) \<noteq> TxHash (TxExecutions be ! i)"
    and "length (TxHash (TxExecutions be ! i)) = tmhash_Size"
  shows "CacheDB_Get (snd (AddBlock cdc be s)) (refsPrefix @ txKeyFormat @ TxHash (TxExecutions be ! i))
       = Some (txRefKeyFormat @ be_bytes uint64Length (Height be) @ be_bytes uint64Length (of_nat i :: 64 word))"
proof -
  let ?H = "TxHash (TxExecutions be ! i)"
  have ne: "KeyFormat_Key txKeyFormat [?H]
      \<noteq> KeyFormat_Key blockRefKeyFormat [be_bytes uint64Length (Height be)]"
  proof
    assume "KeyFormat_Key txKeyFormat [?H] = KeyFormat_Key blockRefKeyFormat [be_bytes uint64Length (Height be)]"
    then have "length (KeyFormat_Key txKeyFormat [?H])
        = length (KeyFormat_Key blockRefKeyFormat [be_bytes uint64Length (Height be)])" by simp
    with assms(5) show False
      by (simp add: KeyFormat_Key_def length_be_bytes txKeyFormat_def blockRefKeyFormat_def
          tmhash_Size_def uint64Length_def)
  qed
  have "refs_Get (snd (AddBlock cdc be s)) (KeyFormat_Key txKeyFormat [?H])
      = Some (KeyFormat_Key txRefKeyFormat [be_bytes uint64Length (Height be), be_bytes uint64Length (of_nat i :: 64 word)])"
    using addTxs_refs [OF assms(3,4), of "Height be" 0 "s\<lparr>height := Height be\<rparr>"] ne
    by (simp add: AddBlock_accepted [OF assms(1)] assms(2) refs_Get_refs_Set)
  then show ?thesis
    by (simp add: refs_Get_def prefixKVStore_Get_def Key_def KeyFormat_Key_def)
qed

text \<open>The branches of \<open>GetTx\<close> once the tree holds a reference: a hash the tree does
  not hold is absent with no error, and an index that is not below the number of the
  block's transactions is the integrity error.\<close>

lemma GetTx_absent:
  "tree_Get (tree s) (KeyFormat_Key txKeyFormat [txHash]) = None \<Longrightarrow> GetTx cdc s txHash = Inr None"
  by (simp add: GetTx_def len_zero_def slice_bytes_def)

lemma GetTx_index_out_of_range:
  assumes "tree_Get (tree s) (KeyFormat_Key txKeyFormat [txHash]) = Some bs" and "bs \<noteq> []"
    and "KeyFormat_Scan2 txRefKeyFormat bs = (h, index)"
    and "GetBlock cdc s h = Inr (Some be)"
    and "\<not> unat index < length (TxExecutions be)"
  shows "GetTx cdc s txHash = Inl (TxIndexOutOfRange index h txHash (length (TxExecutions be)))"
  using assms by (simp add: GetTx_def len_zero_def slice_bytes_def)

lemma GetTx_found:
  assumes "tree_Get (tree s) (KeyFormat_Key txKeyFormat [txHash]) = Some bs" and "bs \<noteq> []"
    and "KeyFormat_Scan2 txRefKeyFormat bs = (h, index)"
    and "GetBlock cdc s h = Inr (Some be)"
    and "unat index < length (TxExecutions be)"
  shows "GetTx cdc s txHash = Inr (Some (TxExecutions be ! unat index))"
  using assms by (simp add: GetTx_def len_zero_def slice_bytes_def)

text \<open>The encoding of the examples decodes to what was encoded.\<close>

lemma example_codec_round_trip:
  "Encode example_codec (example_block 7)
     = Inr ([0, 0, 0, 0, 0, 0, 0, 7] @ 32 # example_hash @ [3, 1, 2, 3])
   \<and> DecodeBlockExecution example_codec ([0, 0, 0, 0, 0, 0, 0, 7] @ 32 # example_hash @ [3, 1, 2, 3])
     = Inr (example_block 7)
   \<and> UnmarshalBinary example_codec
        (be_bytes 8 (7 :: 64 word) @ be_bytes 8 (1 :: 64 word) @ zero_hash)
     = Inr \<lparr>cid_Hash = zero_hash, cid_Height = 7, cid_Version = 1\<rparr>"
  by code_simp


section \<open>Claims on the key-space prefixer\<close>

text \<open>
  C8. For all prefixes \<open>p1\<close> and \<open>p2\<close> where neither is a byte-prefix of the other, and
  for all local keys \<open>k1\<close> and \<open>k2\<close>, the physical keys \<open>Key p1 k1\<close> and \<open>Key p2 k2\<close>
  are distinct, because every physical key is exactly the prefix concatenated with the
  local key.
\<close>

theorem Key_disjoint:
  assumes "\<not> HasPrefix p1 p2" and "\<not> HasPrefix p2 p1"
  shows "Key p1 k1 \<noteq> Key p2 k2 \<and> Key p1 k1 = p1 @ k1 \<and> Key p2 k2 = p2 @ k2"
proof -
  have "p1 @ k1 \<noteq> p2 @ k2"
  proof
    assume "p1 @ k1 = p2 @ k2"
    then have "(\<exists>t. p1 = p2 @ t) \<or> (\<exists>t. p2 = p1 @ t)"
      by (auto simp: append_eq_append_conv2)
    with assms show False by (simp add: HasPrefix_iff)
  qed
  then show ?thesis by (simp add: Key_def)
qed

theorem Key_disjoint_witness:
  "\<not> HasPrefix treePrefix refsPrefix \<and> \<not> HasPrefix refsPrefix treePrefix
   \<and> Key treePrefix [0x61, 1] \<noteq> Key refsPrefix [0x61, 1]"
proof -
  have a: "\<not> HasPrefix treePrefix refsPrefix"
    by (simp add: HasPrefix_def treePrefix_def refsPrefix_def)
  have b: "\<not> HasPrefix refsPrefix treePrefix"
    by (simp add: HasPrefix_def treePrefix_def refsPrefix_def)
  from a b Key_disjoint [OF a b, of "[0x61, 1]" "[0x61, 1]"] show ?thesis by blast
qed

text \<open>
  C3, as amended. \<open>Above p\<close> is none exactly when every byte of \<open>p\<close> is 0xFF, and
  \<open>Below p\<close> is none exactly when every byte is 0x00. Otherwise \<open>Above p\<close> is \<open>p\<close> cut
  after its last byte below 0xFF with that byte incremented, and it is the least byte
  string strictly greater than every byte string that begins with \<open>p\<close> (so the only one
  that is both such a bound and below all such bounds); \<open>Below p\<close> is \<open>p\<close> cut after its
  last byte above 0x00 with that byte decremented, and it is strictly less than every
  byte string that begins with \<open>p\<close>. It is a lower bound, not the greatest one.
\<close>

theorem Above_Below_bounds:
  "(Above p = None \<longleftrightarrow> (\<forall>b\<in>set p. b = 0xff)) \<and>
   (Below p = None \<longleftrightarrow> (\<forall>b\<in>set p. b = 0x00)) \<and>
   (\<forall>a. Above p = Some a \<longrightarrow>
      (\<exists>q c k. p = q @ c # replicate k 0xff \<and> c < 0xff \<and> a = q @ [c + 1]) \<and>
      above_all_prefixed p a \<and>
      (\<forall>u. above_all_prefixed p u \<longrightarrow> a \<le> u) \<and>
      (\<forall>a'. above_all_prefixed p a' \<and> (\<forall>u. above_all_prefixed p u \<longrightarrow> a' \<le> u) \<longrightarrow> a' = a)) \<and>
   (\<forall>b. Below p = Some b \<longrightarrow>
      (\<exists>q c k. p = q @ c # replicate k 0x00 \<and> 0x00 < c \<and> b = q @ [c - 1]) \<and>
      below_all_prefixed p b)"
proof (intro conjI allI impI)
  show "Above p = None \<longleftrightarrow> (\<forall>b\<in>set p. b = 0xff)" by (rule Above_None_iff)
  show "Below p = None \<longleftrightarrow> (\<forall>b\<in>set p. b = 0x00)" by (rule Below_None_iff)
next
  fix a assume a: "Above p = Some a"
  show "\<exists>q c k. p = q @ c # replicate k 0xff \<and> c < 0xff \<and> a = q @ [c + 1]"
    by (rule Above_Some_shape [OF a])
  show up: "above_all_prefixed p a" by (rule Above_is_upper [OF a])
  fix u assume "above_all_prefixed p u"
  then show "a \<le> u" by (rule Above_is_least [OF a])
next
  fix a a' assume a: "Above p = Some a"
    and a': "above_all_prefixed p a' \<and> (\<forall>u. above_all_prefixed p u \<longrightarrow> a' \<le> u)"
  have "a' \<le> a" using a' Above_is_upper [OF a] by blast
  moreover have "a \<le> a'" using a' Above_is_least [OF a] by blast
  ultimately show "a' = a" by simp
next
  fix b assume b: "Below p = Some b"
  show "\<exists>q c k. p = q @ c # replicate k 0x00 \<and> 0x00 < c \<and> b = q @ [c - 1]"
    by (rule Below_Some_shape [OF b])
  show "below_all_prefixed p b" by (rule Below_is_lower [OF b])
qed

theorem Above_Below_bounds_witness:
  "Above [0x01, 0xff] = Some [0x02] \<and> above_all_prefixed [0x01, 0xff] [0x02]
   \<and> Below [0x01, 0xff] = Some [0x01, 0xfe] \<and> below_all_prefixed [0x01, 0xff] [0x01, 0xfe]"
proof -
  have a: "Above [0x01, 0xff] = Some [0x02]" by (simp add: Above_def)
  have b: "Below [0x01, 0xff] = Some [0x01, 0xfe]" by (simp add: Below_def)
  from a b Above_Below_bounds [of "[0x01, 0xff]"] show ?thesis by simp
qed

text \<open>
  C3 as stated fails for \<open>Below\<close>: \<open>Below [0x01, 0x05]\<close> is \<open>[0x01, 0x04]\<close>, yet
  \<open>[0x01, 0x04, 0x00]\<close> is greater and still less than every byte string that begins
  with \<open>[0x01, 0x05]\<close>.
\<close>

theorem Below_not_maximal:
  "Below [0x01, 0x05] = Some [0x01, 0x04]
   \<and> below_all_prefixed [0x01, 0x05] [0x01, 0x04, 0x00]
   \<and> [0x01, 0x04] < [0x01, 0x04, 0x00 :: byte]"
  by (simp add: Below_def below_all_prefixed_iff)


section \<open>Claims on the range iterator adapter\<close>

text \<open>
  C9. For every prefixed iterator, forward or reverse (any value of \<open>prefixIterator\<close>
  over any physical iterator): where \<^verbatim>\<open>Valid()\<close> answers true the underlying key carries
  the prefix as a byte-prefix, and \<^verbatim>\<open>Key()\<close> returns its suffix; where it answers false
  the iterator is marked invalid; validation marks it invalid exactly when the underlying
  iterator is exhausted or its key fails the prefix check; and from an invalid iterator
  every later sequence of calls leaves it invalid and never yields: \<^verbatim>\<open>Valid()\<close> is
  false, \<^verbatim>\<open>Key()\<close>, \<^verbatim>\<open>Value()\<close> and \<^verbatim>\<open>Next()\<close> panic.
\<close>

theorem prefixIterator_terminal:
  "(fst (prefixIterator_Valid ops pi) \<longrightarrow>
      \<not> invalid (snd (prefixIterator_Valid ops pi)) \<and>
      HasPrefix (it_Key ops (source (snd (prefixIterator_Valid ops pi)))) (prefix pi) \<and>
      (\<exists>k. prefixIterator_Key ops (snd (prefixIterator_Valid ops pi)) = Inr k \<and>
           Key (prefix pi) k = it_Key ops (source (snd (prefixIterator_Valid ops pi))))) \<and>
   (\<not> fst (prefixIterator_Valid ops pi) \<longrightarrow> invalid (snd (prefixIterator_Valid ops pi))) \<and>
   (\<not> invalid pi \<longrightarrow>
      (invalid (validate ops pi) \<longleftrightarrow>
         \<not> it_Valid ops (source pi) \<or> \<not> HasPrefix (it_Key ops (source pi)) (prefix pi))) \<and>
   (invalid pi \<longrightarrow>
      invalid (snd (run ops cs pi)) \<and> (\<forall>r\<in>set (fst (run ops cs pi)). \<not> yields r))"
proof (intro conjI impI)
  assume v: "fst (prefixIterator_Valid ops pi)"
  note t = Valid_true [OF v]
  show "\<not> invalid (snd (prefixIterator_Valid ops pi))" using t by simp
  show "HasPrefix (it_Key ops (source (snd (prefixIterator_Valid ops pi)))) (prefix pi)"
    using t by simp
  from Suffix_Key [OF t(4)] t(1,2)
  show "\<exists>k. prefixIterator_Key ops (snd (prefixIterator_Valid ops pi)) = Inr k \<and>
           Key (prefix pi) k = it_Key ops (source (snd (prefixIterator_Valid ops pi)))"
    by (simp add: prefixIterator_Key_def)
next
  assume "\<not> fst (prefixIterator_Valid ops pi)"
  then show "invalid (snd (prefixIterator_Valid ops pi))" by (rule Valid_false)
next
  assume "\<not> invalid pi"
  then show "invalid (validate ops pi) \<longleftrightarrow>
         \<not> it_Valid ops (source pi) \<or> \<not> HasPrefix (it_Key ops (source pi)) (prefix pi)"
    by (rule validate_invalid_iff)
next
  assume i: "invalid pi"
  from run_invalid [OF i] show "invalid (snd (run ops cs pi))" by simp
  from run_invalid [OF i, of ops cs] show "\<forall>r\<in>set (fst (run ops cs pi)). \<not> yields r"
    by (simp add: list_all_iff)
qed

theorem prefixIterator_terminal_witness:
  "fst (prefixIterator_Valid list_Iterator example_reverse)
   \<and> HasPrefix (it_Key list_Iterator (source (snd (prefixIterator_Valid list_Iterator example_reverse)))) [0x78]
   \<and> prefixIterator_Key list_Iterator (snd (prefixIterator_Valid list_Iterator example_reverse)) = Inr [0x62]
   \<and> invalid example_exhausted
   \<and> invalid (snd (run list_Iterator [CallValid, CallKey, CallValue, CallNext, CallClose, CallValid] example_exhausted))
   \<and> list_all (\<lambda>r. \<not> yields r)
        (fst (run list_Iterator [CallValid, CallKey, CallValue, CallNext, CallClose, CallValid] example_exhausted))"
proof -
  have v: "fst (prefixIterator_Valid list_Iterator example_reverse)" by code_simp
  have p: "prefix example_reverse = [0x78]" by code_simp
  have k: "prefixIterator_Key list_Iterator (snd (prefixIterator_Valid list_Iterator example_reverse)) = Inr [0x62]"
    by code_simp
  have d: "invalid example_exhausted" by code_simp
  from prefixIterator_terminal [of list_Iterator example_reverse] v p
  have a: "HasPrefix (it_Key list_Iterator (source (snd (prefixIterator_Valid list_Iterator example_reverse)))) [0x78]"
    by simp
  from prefixIterator_terminal [of list_Iterator example_exhausted
      "[CallValid, CallKey, CallValue, CallNext, CallClose, CallValid]"] d
  have b: "invalid (snd (run list_Iterator [CallValid, CallKey, CallValue, CallNext, CallClose, CallValid] example_exhausted))
    \<and> list_all (\<lambda>r. \<not> yields r)
        (fst (run list_Iterator [CallValid, CallKey, CallValue, CallNext, CallClose, CallValid] example_exhausted))"
    by (simp only: list_all_iff) blast
  from v a k d b show ?thesis by blast
qed

text \<open>
  C4, as amended. For every prefix \<open>p\<close> and logical bounds, the reverse iterator opens
  the physical scan at \<open>Key p start\<close> when \<open>start\<close> is given and at \<open>Above p\<close> when it
  is nil; it discards the first physical item when that item's key is equal to
  \<open>Above p\<close> (as \<^verbatim>\<open>bytes.Equal\<close> compares, a nil \<open>Above p\<close> being equal to the empty
  key), a key that does not begin with \<open>p\<close>; and the physical end bound is \<open>Key p end\<close> when \<open>end\<close> is given and \<open>Below p\<close>
  when it is nil. The iterator it returns keeps the logical bounds and starts valid.
\<close>

theorem ReverseIterator_physical_range:
  "source (ReverseIterator ops iteratorFn p st en) =
     skipOne ops
       (iteratorFn (case st of None \<Rightarrow> Above p | Some s \<Rightarrow> Some (Key p s))
                   (case en of None \<Rightarrow> Below p | Some e \<Rightarrow> Some (Key p e)))
       (Above p)
   \<and> skipOne ops it skipKey =
       (if it_Valid ops it \<and> it_Key ops it = slice_bytes skipKey then it_Next ops it else it)
   \<and> (\<forall>a. Above p = Some a \<longrightarrow> \<not> HasPrefix a p)
   \<and> prefixIterator_Domain (ReverseIterator ops iteratorFn p st en) = (st, en)
   \<and> prefix (ReverseIterator ops iteratorFn p st en) = p
   \<and> \<not> invalid (ReverseIterator ops iteratorFn p st en)"
proof -
  have "\<not> HasPrefix a p" if "Above p = Some a" for a
  proof
    assume "HasPrefix a p"
    with Above_is_upper [OF that] have "a < a" unfolding above_all_prefixed_def by blast
    then show False by simp
  qed
  then show ?thesis
    by (simp add: ReverseIterator_def skipOne_def bytes_Equal_def prefixIterator_Domain_def Let_def)
qed

theorem ReverseIterator_physical_range_witness:
  "source (ReverseIterator bounds_Iterator Pair [0x78] None None) = (Some [0x79], Some [0x77])
   \<and> source (ReverseIterator bounds_Iterator Pair [0x78] (Some [0x62]) None) = (Some [0x78, 0x62], Some [0x77])
   \<and> source (ReverseIterator bounds_Iterator Pair [0x78] None (Some [0x61])) = (Some [0x79], Some [0x78, 0x61])
   \<and> list_ReverseIterator example_items (Some [0x79]) (Some [0x77])
        = [([0x79], [4]), ([0x78, 0x62], [3]), ([0x78, 0x61], [2]), ([0x78], [1]), ([0x77, 0xff], [0])]
   \<and> source example_reverse = [([0x78, 0x62], [3]), ([0x78, 0x61], [2]), ([0x78], [1]), ([0x77, 0xff], [0])]"
proof -
  have a: "Above [0x78] = Some [0x79]" by (simp add: Above_def)
  have b: "Below [0x78] = Some [0x77]" by (simp add: Below_def)
  have v: "\<not> it_Valid bounds_Iterator r" for r by (simp add: bounds_Iterator_def)
  have l: "list_ReverseIterator example_items (Some [0x79]) (Some [0x77])
        = [([0x79], [4]), ([0x78, 0x62], [3]), ([0x78, 0x61], [2]), ([0x78], [1]), ([0x77, 0xff], [0])]"
    by (simp add: list_ReverseIterator_def example_items_def)
  have 1: "source (ReverseIterator bounds_Iterator Pair [0x78] None None) = (Some [0x79], Some [0x77])"
    using ReverseIterator_physical_range [of bounds_Iterator Pair "[0x78]" None None]
    by (simp add: a b v skipOne_def)
  have 2: "source (ReverseIterator bounds_Iterator Pair [0x78] (Some [0x62]) None) = (Some [0x78, 0x62], Some [0x77])"
    using ReverseIterator_physical_range [of bounds_Iterator Pair "[0x78]" "Some [0x62]" None]
    by (simp add: a b v skipOne_def Key_def)
  have 3: "source (ReverseIterator bounds_Iterator Pair [0x78] None (Some [0x61])) = (Some [0x79], Some [0x78, 0x61])"
    using ReverseIterator_physical_range [of bounds_Iterator Pair "[0x78]" None "Some [0x61]"]
    by (simp add: a b v skipOne_def Key_def)
  have 4: "source example_reverse = [([0x78, 0x62], [3]), ([0x78, 0x61], [2]), ([0x78], [1]), ([0x77, 0xff], [0])]"
    unfolding example_reverse_def
    using ReverseIterator_physical_range [of list_Iterator "list_ReverseIterator example_items" "[0x78]" None None
        "list_ReverseIterator example_items (Some [0x79]) (Some [0x77])" "Some [0x79]"]
    by (simp add: a b l list_Iterator_def slice_bytes_def)
  from 1 2 3 l 4 show ?thesis by blast
qed

text \<open>
  C4 as stated fails when \<open>start\<close> is given: for the prefix \<^verbatim>\<open>x\<close>, \<open>start\<close> \<^verbatim>\<open>b\<close> and
  \<open>end\<close> \<^verbatim>\<open>a\<close> the physical scan is opened at \<^verbatim>\<open>xb\<close>, not at \<open>Above\<close> (\<^verbatim>\<open>y\<close>), and
  its end bound is \<^verbatim>\<open>xa\<close>, not \<open>Key p start\<close> (\<^verbatim>\<open>xb\<close>).
\<close>

theorem ReverseIterator_start_given:
  "source (ReverseIterator bounds_Iterator Pair [0x78] (Some [0x62]) (Some [0x61]))
     = (Some [0x78, 0x62], Some [0x78, 0x61])
   \<and> fst (source (ReverseIterator bounds_Iterator Pair [0x78] (Some [0x62]) (Some [0x61]))) \<noteq> Above [0x78]
   \<and> snd (source (ReverseIterator bounds_Iterator Pair [0x78] (Some [0x62]) (Some [0x61])))
       \<noteq> Some (Key [0x78] [0x62])"
  by (simp add: ReverseIterator_def skipOne_def bounds_Iterator_def Above_def Below_def Key_def)


section \<open>Claims on the state store\<close>

text \<open>
  C2, as amended. \<open>AddBlock\<close> returns the height-mismatch error, and leaves the state as
  it was, exactly when the current height is not 0 and \<open>Height be\<close> is not the current
  height plus 1 (a sum of \<^verbatim>\<open>uint64\<close>). Whenever the current height is 0 or \<open>Height be\<close>
  is the current height plus 1 it advances the height to \<open>Height be\<close>, and it succeeds
  exactly when, besides, the encoder returns the block's bytes; the encoder's error is
  returned with the height already advanced. For block executions that encode: on a fresh
  state one of height 1 is accepted, one of height 3 is then refused with the
  height-mismatch error, and one of height 2 is then accepted.
\<close>

theorem AddBlock_height_sequencing:
  "(fst (AddBlock cdc be s) = Some (HeightMismatch (Height be) (height s))
      \<longleftrightarrow> \<not> (height s = 0 \<or> Height be = height s + 1)) \<and>
   (\<not> (height s = 0 \<or> Height be = height s + 1) \<longrightarrow> snd (AddBlock cdc be s) = s) \<and>
   (height s = 0 \<or> Height be = height s + 1 \<longrightarrow> height (snd (AddBlock cdc be s)) = Height be) \<and>
   (fst (AddBlock cdc be s) = None
      \<longleftrightarrow> (height s = 0 \<or> Height be = height s + 1) \<and> (\<exists>bs. Encode cdc be = Inr bs)) \<and>
   (\<forall>e. fst (AddBlock cdc be s) = Some (EncodeError e)
      \<longleftrightarrow> (height s = 0 \<or> Height be = height s + 1) \<and> Encode cdc be = Inl e) \<and>
   (Height b1 = 1 \<and> Height b3 = 3 \<and> Height b2 = 2
      \<and> (\<exists>bs. Encode cdc b1 = Inr bs) \<and> (\<exists>bs. Encode cdc b2 = Inr bs) \<longrightarrow>
      fst (AddBlock cdc b1 (NewState d)) = None
      \<and> fst (AddBlock cdc b3 (snd (AddBlock cdc b1 (NewState d)))) = Some (HeightMismatch 3 1)
      \<and> fst (AddBlock cdc b2 (snd (AddBlock cdc b3 (snd (AddBlock cdc b1 (NewState d)))))) = None
      \<and> height (snd (AddBlock cdc b2 (snd (AddBlock cdc b3 (snd (AddBlock cdc b1 (NewState d))))))) = 2)"
proof -
  have general:
    "(fst (AddBlock cdc be s) = Some (HeightMismatch (Height be) (height s))
        \<longleftrightarrow> \<not> (height s = 0 \<or> Height be = height s + 1)) \<and>
     (\<not> (height s = 0 \<or> Height be = height s + 1) \<longrightarrow> snd (AddBlock cdc be s) = s) \<and>
     (height s = 0 \<or> Height be = height s + 1 \<longrightarrow> height (snd (AddBlock cdc be s)) = Height be) \<and>
     (fst (AddBlock cdc be s) = None
        \<longleftrightarrow> (height s = 0 \<or> Height be = height s + 1) \<and> (\<exists>bs. Encode cdc be = Inr bs)) \<and>
     (\<forall>e. fst (AddBlock cdc be s) = Some (EncodeError e)
        \<longleftrightarrow> (height s = 0 \<or> Height be = height s + 1) \<and> Encode cdc be = Inl e)"
    for be s
  proof (cases "height s = 0 \<or> Height be = height s + 1")
    case True
    show ?thesis
      using True by (cases "Encode cdc be") (auto simp: AddBlock_accepted [OF True])
  next
    case False
    show ?thesis
      using False by (auto simp: AddBlock_rejected [OF False])
  qed
  have scenario:
    "fst (AddBlock cdc b1 (NewState d)) = None
      \<and> fst (AddBlock cdc b3 (snd (AddBlock cdc b1 (NewState d)))) = Some (HeightMismatch 3 1)
      \<and> fst (AddBlock cdc b2 (snd (AddBlock cdc b3 (snd (AddBlock cdc b1 (NewState d)))))) = None
      \<and> height (snd (AddBlock cdc b2 (snd (AddBlock cdc b3 (snd (AddBlock cdc b1 (NewState d))))))) = 2"
    if h: "Height b1 = 1" "Height b3 = 3" "Height b2 = 2"
      and e1: "\<exists>bs. Encode cdc b1 = Inr bs" and e2: "\<exists>bs. Encode cdc b2 = Inr bs"
  proof -
    let ?s0 = "NewState d"
    let ?s1 = "snd (AddBlock cdc b1 ?s0)"
    let ?s3 = "snd (AddBlock cdc b3 ?s1)"
    let ?s2 = "snd (AddBlock cdc b2 ?s3)"
    have h0: "height ?s0 = 0" by (simp add: NewState_def)
    from general [of b1 ?s0] h0 e1 h
    have r1: "fst (AddBlock cdc b1 ?s0) = None" and h1: "height ?s1 = 1" by simp_all
    have n3: "\<not> (height ?s1 = 0 \<or> Height b3 = height ?s1 + 1)" using h1 h by simp
    from general [of b3 ?s1] n3 h1 h
    have r3: "fst (AddBlock cdc b3 ?s1) = Some (HeightMismatch 3 1)" and s3: "?s3 = ?s1"
      by simp_all
    from s3 h1 have h3: "height ?s3 = 1" by simp
    from general [of b2 ?s3] h3 e2 h
    have r2: "fst (AddBlock cdc b2 ?s3) = None" and h2: "height ?s2 = 2" by simp_all
    from r1 r3 r2 h2 show ?thesis by blast
  qed
  from general [of be s] scenario show ?thesis by blast
qed

theorem AddBlock_height_sequencing_witness:
  "fst (AddBlock example_codec (example_block 1) (NewState empty_DB)) = None
   \<and> height (snd (AddBlock example_codec (example_block 1) (NewState empty_DB))) = 1
   \<and> fst (AddBlock example_codec (example_block 3)
           (snd (AddBlock example_codec (example_block 1) (NewState empty_DB))))
       = Some (HeightMismatch 3 1)
   \<and> fst (AddBlock example_codec (example_block 2)
           (snd (AddBlock example_codec (example_block 3)
              (snd (AddBlock example_codec (example_block 1) (NewState empty_DB))))))
       = None
   \<and> height (snd (AddBlock example_codec (example_block 2)
           (snd (AddBlock example_codec (example_block 3)
              (snd (AddBlock example_codec (example_block 1) (NewState empty_DB))))))) = 2"
proof -
  have enc: "\<exists>bs. Encode example_codec (example_block h) = Inr bs" for h
    by (simp add: example_codec_def)
  have hb: "Height (example_block h) = h" for h by (simp add: example_block_def)
  have h0: "height (NewState empty_DB) = 0" by (simp add: NewState_def)
  from AddBlock_height_sequencing [of example_codec "example_block 1" "NewState empty_DB"] h0 hb
  have h1: "height (snd (AddBlock example_codec (example_block 1) (NewState empty_DB))) = 1"
    by simp
  from AddBlock_height_sequencing [of example_codec _ _ "example_block 1" "example_block 3"
      "example_block 2" empty_DB] enc hb h1
  show ?thesis by simp
qed

text \<open>
  C2 as stated fails when the encoder returns its error: on a fresh state, of height 0,
  \<open>AddBlock\<close> of a block of height 1 does not succeed, it returns the encoder's error,
  and the height has been advanced to 1.
\<close>

theorem AddBlock_encoder_error:
  "height (NewState empty_DB) = 0
   \<and> fst (AddBlock failing_codec (example_block 1) (NewState empty_DB)) = Some (EncodeError ''unencodable'')
   \<and> fst (AddBlock failing_codec (example_block 1) (NewState empty_DB)) \<noteq> None
   \<and> height (snd (AddBlock failing_codec (example_block 1) (NewState empty_DB))) = 1"
  by (simp add: AddBlock_def NewState_def failing_codec_def example_block_def Let_def)

text \<open>
  C10. Whenever \<open>AddBlock\<close> returns the height-mismatch error the state is the one it
  was given: the height keeps its value, and the reference space, the pending writes and
  the backend are unchanged, so no transaction reference and no block-by-height entry has
  been written.
\<close>

theorem AddBlock_mismatch_unchanged:
  assumes "fst (AddBlock cdc be s) = Some (HeightMismatch a b)"
  shows "snd (AddBlock cdc be s) = s \<and> height (snd (AddBlock cdc be s)) = height s
         \<and> (\<forall>k. refs_Get (snd (AddBlock cdc be s)) k = refs_Get s k)
         \<and> cacheDB (snd (AddBlock cdc be s)) = cacheDB s \<and> db (snd (AddBlock cdc be s)) = db s"
proof (cases "height s = 0 \<or> Height be = height s + 1")
  case True
  with assms show ?thesis
    by (cases "Encode cdc be") (simp_all add: AddBlock_accepted [OF True])
next
  case False
  then show ?thesis by (simp add: AddBlock_rejected [OF False])
qed

theorem AddBlock_mismatch_unchanged_witness:
  "fst (AddBlock example_codec (example_block 3) (example_committed 1)) = Some (HeightMismatch 3 1)
   \<and> snd (AddBlock example_codec (example_block 3) (example_committed 1)) = example_committed 1
   \<and> height (snd (AddBlock example_codec (example_block 3) (example_committed 1))) = 1
   \<and> refs_Get (snd (AddBlock example_codec (example_block 3) (example_committed 1)))
        (KeyFormat_Key blockRefKeyFormat [be_bytes uint64Length (3 :: 64 word)]) = None"
proof -
  have h: "height (example_committed 1) = 1" by code_simp
  have r: "fst (AddBlock example_codec (example_block 3) (example_committed 1)) = Some (HeightMismatch 3 1)"
    using h by (simp add: AddBlock_def example_block_def)
  have n: "refs_Get (example_committed 1) (KeyFormat_Key blockRefKeyFormat [be_bytes uint64Length (3 :: 64 word)]) = None"
    by code_simp
  from AddBlock_mismatch_unchanged [OF r] h n r show ?thesis by simp
qed

text \<open>
  C6. Whenever \<open>LoadState\<close> succeeds, the stored \<open>CommitID\<close> decodes, its version is
  positive and among the sealed versions, the tree of the returned state is at that
  version, and the height of the returned state is 0: it is not taken from the
  \<open>CommitID\<close>.
\<close>

theorem LoadState_height_not_restored:
  assumes "LoadState cdc d hash = Inr s"
  shows "height s = 0 \<and>
         (\<exists>c. UnmarshalBinary cdc (slice_bytes (raw d (Key refsPrefix (KeyFormat_Key commitKeyFormat [hash])))) = Inr c
            \<and> 0 < cid_Version c \<and> cid_Version c \<le> int (length (tree_versions d))
            \<and> readable (tree s) = tree_versions d ! (nat (cid_Version c) - 1)
            \<and> working (tree s) = tree_versions d ! (nat (cid_Version c) - 1))"
proof -
  from LoadState_Inr [OF assms] obtain c where
    c: "UnmarshalBinary cdc (slice_bytes (raw d (Key refsPrefix (KeyFormat_Key commitKeyFormat [hash])))) = Inr c"
      "0 < cid_Version c" "cid_Version c \<le> int (length (tree_versions d))"
    and s: "s = (NewState d)\<lparr>tree := (NewRWTree d)\<lparr>working := tree_versions d ! (nat (cid_Version c) - 1),
                                                      readable := tree_versions d ! (nat (cid_Version c) - 1)\<rparr>\<rparr>"
    by blast
  from s have "height s = 0" by (simp add: NewState_def)
  moreover from s have "readable (tree s) = tree_versions d ! (nat (cid_Version c) - 1)"
    and "working (tree s) = tree_versions d ! (nat (cid_Version c) - 1)" by simp_all
  ultimately show ?thesis using c by blast
qed

theorem LoadState_height_not_restored_witness:
  "height (example_committed 7) = 7
   \<and> map_sum id cid_Height (UnmarshalBinary example_codec (slice_bytes
        (raw (db (example_committed 7)) (Key refsPrefix (KeyFormat_Key commitKeyFormat [zero_hash])))))
       = Inr 7
   \<and> map_sum id height (LoadState example_codec (db (example_committed 7)) zero_hash) = Inr 0"
proof -
  have a: "height (example_committed 7) = 7" by code_simp
  have b: "map_sum id cid_Height (UnmarshalBinary example_codec (slice_bytes
        (raw (db (example_committed 7)) (Key refsPrefix (KeyFormat_Key commitKeyFormat [zero_hash])))))
       = Inr 7" by code_simp
  have "isl (LoadState example_codec (db (example_committed 7)) zero_hash) = False" by code_simp
  then obtain s where s: "LoadState example_codec (db (example_committed 7)) zero_hash = Inr s"
    by (cases "LoadState example_codec (db (example_committed 7)) zero_hash") simp_all
  from LoadState_height_not_restored [OF s] have "height s = 0" by simp
  with s have c: "map_sum id height (LoadState example_codec (db (example_committed 7)) zero_hash) = Inr 0"
    by simp
  from a b c show ?thesis by blast
qed

text \<open>
  C7, as amended. For every address and storage key, \<open>SetStorage\<close> of the zero word
  deletes the slot's key from the working tree and stores no value. Once that write is
  committed, as \<open>Update\<close> does, \<open>GetStorage\<close> returns the zero word and the tree does
  not have the key; the same holds right after the write when the tree that serves the
  readers holds no value for the key.
\<close>

theorem SetStorage_zero_deletes:
  "working (tree (snd (SetStorage address key Zero256 s)))
      (KeyFormat_Key storageKeyFormat [Address_Bytes address, Word256_Bytes key]) = None
   \<and> fst (SetStorage address key Zero256 s) = None
   \<and> GetStorage (snd (Update cdc (SetStorage address key Zero256) s)) address key = Inr Zero256
   \<and> \<not> tree_Has (tree (snd (Update cdc (SetStorage address key Zero256) s)))
        (KeyFormat_Key storageKeyFormat [Address_Bytes address, Word256_Bytes key])
   \<and> (\<not> tree_Has (tree s) (KeyFormat_Key storageKeyFormat [Address_Bytes address, Word256_Bytes key]) \<longrightarrow>
        GetStorage (snd (SetStorage address key Zero256 s)) address key = Inr Zero256
        \<and> \<not> tree_Has (tree (snd (SetStorage address key Zero256 s)))
             (KeyFormat_Key storageKeyFormat [Address_Bytes address, Word256_Bytes key]))"
proof -
  let ?k = "KeyFormat_Key storageKeyFormat [Address_Bytes address, Word256_Bytes key]"
  let ?s1 = "snd (SetStorage address key Zero256 s)"
  have w: "working (tree ?s1) ?k = None"
    by (simp add: SetStorage_def tree_Delete_def)
  have f: "fst (SetStorage address key Zero256 s) = None"
    by (simp add: SetStorage_def)
  have u: "Update cdc (SetStorage address key Zero256) s = commit cdc ?s1"
    by (simp add: Update_def SetStorage_def)
  have r: "readable (tree (snd (Update cdc (SetStorage address key Zero256) s))) ?k = None"
    using commit_tree [of cdc ?s1] w u by simp
  from r have g: "GetStorage (snd (Update cdc (SetStorage address key Zero256) s)) address key = Inr Zero256"
    by (simp add: GetStorage_def tree_Get_def LeftPadWord256_nil)
  from r have h: "\<not> tree_Has (tree (snd (Update cdc (SetStorage address key Zero256) s))) ?k"
    by (simp add: tree_Has_def)
  have rd: "readable (tree ?s1) = readable (tree s)"
    by (simp add: SetStorage_def tree_Delete_def)
  have b: "GetStorage ?s1 address key = Inr Zero256 \<and> \<not> tree_Has (tree ?s1) ?k"
    if "\<not> tree_Has (tree s) ?k"
    using that rd by (simp add: GetStorage_def tree_Get_def tree_Has_def LeftPadWord256_nil)
  from w f g h b show ?thesis by blast
qed

theorem SetStorage_zero_deletes_witness:
  "GetStorage (snd (Update example_codec (SetStorage 1 2 5) (NewState empty_DB))) 1 2 = Inr 5
   \<and> GetStorage (snd (Update example_codec (SetStorage 1 2 Zero256)
         (snd (Update example_codec (SetStorage 1 2 5) (NewState empty_DB))))) 1 2 = Inr Zero256
   \<and> \<not> tree_Has (tree (snd (Update example_codec (SetStorage 1 2 Zero256)
         (snd (Update example_codec (SetStorage 1 2 5) (NewState empty_DB))))))
        (KeyFormat_Key storageKeyFormat [Address_Bytes 1, Word256_Bytes 2])
   \<and> \<not> tree_Has (tree (NewState empty_DB))
        (KeyFormat_Key storageKeyFormat [Address_Bytes 1, Word256_Bytes 2])
   \<and> GetStorage (snd (SetStorage 1 2 Zero256 (NewState empty_DB))) 1 2 = Inr Zero256"
proof -
  have a: "GetStorage (snd (Update example_codec (SetStorage 1 2 5) (NewState empty_DB))) 1 2 = Inr 5"
    by code_simp
  have n: "\<not> tree_Has (tree (NewState empty_DB))
        (KeyFormat_Key storageKeyFormat [Address_Bytes 1, Word256_Bytes 2])"
    by (simp add: tree_Has_def NewState_def NewRWTree_def)
  from a n
    SetStorage_zero_deletes [of 1 2 "snd (Update example_codec (SetStorage 1 2 5) (NewState empty_DB))"
      example_codec]
    SetStorage_zero_deletes [of 1 2 "NewState empty_DB" example_codec]
  show ?thesis by blast
qed

text \<open>
  C7 as stated fails between the write and its commit: after a slot was committed with
  the value 5, \<open>SetStorage\<close> of the zero word followed at once by \<open>GetStorage\<close> still
  returns 5, and the tree still has the key.
\<close>

theorem GetStorage_before_commit:
  "GetStorage (snd (SetStorage 1 2 Zero256 (snd (Update example_codec (SetStorage 1 2 5) (NewState empty_DB))))) 1 2
     = Inr 5
   \<and> tree_Has (tree (snd (SetStorage 1 2 Zero256 (snd (Update example_codec (SetStorage 1 2 5) (NewState empty_DB))))))
        (KeyFormat_Key storageKeyFormat [Address_Bytes 1, Word256_Bytes 2])"
  by code_simp

text \<open>
  C1 fails on the code. \<open>addTx\<close> writes the reference of a transaction to the reference
  space, and \<open>GetTx\<close> looks the hash up in the tree, which \<open>AddBlock\<close> never writes.
  After \<open>Update\<close> has added a block of height 1 holding one transaction to a fresh
  state and committed it, the reference space holds the transaction's reference and the
  block, and \<open>GetTx\<close> of the transaction's hash returns absent with no error.
\<close>

theorem GetTx_after_AddBlock:
  "fst (Update example_codec (AddBlock example_codec (example_block 1)) (NewState empty_DB)) = Inr zero_hash
   \<and> refs_Get (example_committed 1) (KeyFormat_Key txKeyFormat [example_hash])
       = Some (KeyFormat_Key txRefKeyFormat [be_bytes uint64Length (1 :: 64 word), be_bytes uint64Length (0 :: 64 word)])
   \<and> refs_Has (example_committed 1) (KeyFormat_Key blockRefKeyFormat [be_bytes uint64Length (1 :: 64 word)])
   \<and> GetTx example_codec (example_committed 1) example_hash = Inr None"
  by code_simp

text \<open>The same for every backend, block and transaction hash: on a state made by
  \<open>NewState\<close>, \<open>GetTx\<close> after \<open>Update\<close> of \<open>AddBlock\<close> returns absent.\<close>

lemma GetTx_reads_tree:
  "GetTx cdc (snd (Update cdc (AddBlock cdc be) (NewState d))) txHash = Inr None"
proof -
  let ?s = "snd (Update cdc (AddBlock cdc be) (NewState d))"
  have t: "tree (snd (AddBlock cdc be s)) = tree s" for s
    by (cases "Encode cdc be") (simp_all add: AddBlock_def Let_def)
  have e: "readable (tree (NewState d)) = Map.empty" "working (tree (NewState d)) = Map.empty"
    by (simp_all add: NewState_def NewRWTree_def)
  have "readable (tree ?s) = Map.empty"
  proof (cases "AddBlock cdc be (NewState d)")
    case (Pair r s1)
    with t [of "NewState d"] have ts: "tree s1 = tree (NewState d)" by simp
    show ?thesis
    proof (cases r)
      case None
      with Pair have "?s = snd (commit cdc s1)" by (simp add: Update_def)
      with commit_tree [of cdc s1] ts e show ?thesis by simp
    next
      case (Some err)
      with Pair have "?s = s1" by (simp add: Update_def)
      with ts e show ?thesis by simp
    qed
  qed
  then show ?thesis
    by (simp add: GetTx_def tree_Get_def len_zero_def slice_bytes_def)
qed

text \<open>
  C5 fails on the code in the tag. After \<open>AddBlock\<close> of a block of height 1 holding one
  transaction, the reference space holds the encoded pair (1, 0) under the tag \<^verbatim>\<open>b\<close>
  followed by the hash, physically under \<^verbatim>\<open>rb\<close> and the hash, and nothing under the tag
  \<^verbatim>\<open>t\<close> followed by the hash. The tag \<^verbatim>\<open>b\<close> is the tag of the block-by-height keys of
  the same space: the transaction's key lies between the block keys of height 0 and of
  the greatest height, inside the range a scan of all blocks covers.
\<close>

theorem AddBlock_tx_key_tag:
  "refs_Get (snd (AddBlock example_codec (example_block 1) (NewState empty_DB))) (0x62 # example_hash)
     = Some (0x74 # be_bytes 8 (1 :: 64 word) @ be_bytes 8 (0 :: 64 word))
   \<and> refs_Get (snd (AddBlock example_codec (example_block 1) (NewState empty_DB))) (0x74 # example_hash)
     = None
   \<and> CacheDB_Get (snd (AddBlock example_codec (example_block 1) (NewState empty_DB)))
        (0x72 # 0x62 # example_hash)
     = Some (0x74 # be_bytes 8 (1 :: 64 word) @ be_bytes 8 (0 :: 64 word))
   \<and> KeyFormat_Key blockRefKeyFormat [be_bytes uint64Length (0 :: 64 word)]
       < KeyFormat_Key txKeyFormat [example_hash]
   \<and> KeyFormat_Key txKeyFormat [example_hash]
       < KeyFormat_Key blockRefKeyFormat [be_bytes uint64Length (0xffffffffffffffff :: 64 word)]"
  by code_simp


end
